theory Spec2Isabelle
  imports Main "HOL-Library.Monad_Syntax"
begin

unbundle bit_operations_syntax

section \<open>Memory, C strings and 32-bit integers\<close>

text \<open>
  A C \<^verbatim>\<open>char\<close> is a \<^typ>\<open>char\<close> (eight bits). The memory that a \<^verbatim>\<open>char *\<close>
  points into is a \<^typ>\<open>char list\<close>: the bytes from the pointer to the end of the object it
  points into. A pointer into that object is an \<^typ>\<open>int\<close>, the byte offset from its start,
  so that pointer arithmetic and pointer comparison are integer arithmetic and comparison.
  An access outside the object is undefined behaviour in C; here it is the result \<open>None\<close>,
  and every function that touches memory returns an \<open>option\<close>.

  A C \<^verbatim>\<open>int\<close> is an \<^typ>\<open>int\<close>. The conversions between \<^verbatim>\<open>uint32_t\<close> and
  \<^verbatim>\<open>int\<close> that the source performs are written out (\<open>to_uint32\<close>, \<open>to_int32\<close>, two's
  complement), and so is the unsigned arithmetic of the blob case of \<open>tosc_write\<close>. Signed
  overflow of an \<^verbatim>\<open>int\<close> sum (undefined in C) is not modelled: the sums of the source
  exceed a length or an offset by at most 7, so that it needs a buffer within eight bytes of
  \<open>2^31\<close>. An unaligned access through \<^verbatim>\<open>uint32_t *\<close> is taken to read or write the four
  bytes at the address.
\<close>

definition load :: "char list \<Rightarrow> int \<Rightarrow> char option" where
  "load mem p = (if 0 \<le> p \<and> p < int (length mem) then Some (mem ! nat p) else None)"

text \<open>\<^verbatim>\<open>strlen(mem + p)\<close>: the number of bytes before the first null byte at or after \<open>p\<close>.
  Without a null byte in the object the scan leaves it.\<close>

definition strlen :: "char list \<Rightarrow> int \<Rightarrow> int option" where
  "strlen mem p =
     (if 0 \<le> p \<and> CHR 0x00 \<in> set (drop (nat p) mem)
      then Some (int (length (takeWhile (\<lambda>c. c \<noteq> CHR 0x00) (drop (nat p) mem))))
      else None)"

text \<open>The null-terminated string a pointer designates, without its terminator.\<close>

definition cstring_at :: "char list \<Rightarrow> int \<Rightarrow> char list" where
  "cstring_at mem p = takeWhile (\<lambda>c. c \<noteq> CHR 0x00) (drop (nat p) mem)"

text \<open>Network byte order: \<open>be32\<close> is the unsigned number four bytes denote, most significant
  byte first; \<open>be32_bytes\<close> is the inverse, the bytes that \<^verbatim>\<open>htonl\<close> leaves in memory.\<close>

definition be32 :: "char list \<Rightarrow> int" where
  "be32 bs = foldl (\<lambda>acc b. acc * 256 + of_char b) 0 bs"

definition be32_bytes :: "int \<Rightarrow> char list" where
  "be32_bytes u = [char_of (u div 2 ^ 24), char_of (u div 2 ^ 16), char_of (u div 2 ^ 8), char_of u]"

text \<open>\<^verbatim>\<open>ntohl(*((uint32_t *) (mem + p)))\<close>: four bytes are read at \<open>p\<close>.\<close>

definition ntohl_at :: "char list \<Rightarrow> int \<Rightarrow> int option" where
  "ntohl_at mem p =
     (if 0 \<le> p \<and> p + 4 \<le> int (length mem) then Some (be32 (take 4 (drop (nat p) mem))) else None)"

text \<open>The casts \<^verbatim>\<open>(int32_t) u\<close> of an unsigned 32-bit number and \<^verbatim>\<open>(uint32_t) k\<close> of an
  \<^verbatim>\<open>int\<close> (two's complement).\<close>

definition to_int32 :: "int \<Rightarrow> int" where
  "to_int32 u = (if u mod 2 ^ 32 < 2 ^ 31 then u mod 2 ^ 32 else u mod 2 ^ 32 - 2 ^ 32)"

definition to_uint32 :: "int \<Rightarrow> int" where
  "to_uint32 k = k mod 2 ^ 32"

section \<open>The reader\<close>

text \<open>
  The struct \<^verbatim>\<open>tosc_tinyosc\<close>, with the fields the source assigns. The four pointers are
  offsets from the start of the buffer that \<open>tosc_read\<close> was given. The field \<^verbatim>\<open>o->marker\<close>
  is \<open>o_marker\<close>, and so on: \<open>buffer\<close>, \<open>len\<close>, \<open>address\<close> and \<open>format\<close> are also the
  parameters of \<open>tosc_read\<close> and \<open>tosc_write\<close>. The struct variable \<^verbatim>\<open>o\<close> is \<open>osc\<close>.
\<close>

record tosc_tinyosc =
  o_format :: int
  o_marker :: int
  o_buffer :: int
  o_len :: int
  o_address :: int

text \<open>Both loops of \<open>tosc_read\<close>: \<^verbatim>\<open>while (i < len && buffer[i] != c) ++i;\<close>\<close>

function scan :: "char \<Rightarrow> char list \<Rightarrow> int \<Rightarrow> int \<Rightarrow> int option" where
  "scan c buffer len i =
     (if i < len then
        (case load buffer i of
           None \<Rightarrow> None
         | Some b \<Rightarrow> if b \<noteq> c then scan c buffer len (i + 1) else Some i)
      else Some i)"
  by pat_completeness auto
termination
  by (relation "measure (\<lambda>(c, buffer, len, i). nat (len - i))") auto

declare scan.simps [simp del]

text \<open>\<open>tosc_read\<close> returns the code of the source (\<open>0\<close>, \<open>-1\<close> for a missing comma, \<open>-2\<close> for
  a format string without terminator) and the struct as it leaves it.\<close>

definition tosc_read :: "tosc_tinyosc \<Rightarrow> char list \<Rightarrow> int \<Rightarrow> (int \<times> tosc_tinyosc) option" where
  "tosc_read osc buffer len = do {
     let osc = osc\<lparr>o_address := 0\<rparr>;
     i \<leftarrow> scan (CHR '','') buffer len 0;
     if i = len then Some (- 1, osc) else do {
       let osc = osc\<lparr>o_format := i + 1\<rparr>;
       i \<leftarrow> scan (CHR 0x00) buffer len i;
       if i = len then Some (- 2, osc) else do {
         let i = (i + 4) AND NOT 3;
         Some (0, osc\<lparr>o_marker := i, o_buffer := 0, o_len := len\<rparr>)
       }
     }
   }"

section \<open>The argument iterator\<close>

definition tosc_getNextInt32 :: "char list \<Rightarrow> tosc_tinyosc \<Rightarrow> (int \<times> tosc_tinyosc) option" where
  "tosc_getNextInt32 mem osc = do {
     u \<leftarrow> ntohl_at mem (o_marker osc);
     Some (to_int32 u, osc\<lparr>o_marker := o_marker osc + 4\<rparr>)
   }"

text \<open>A \<^verbatim>\<open>float\<close> is its 32-bit pattern, an unsigned number: the source only moves the
  pattern between the value and the buffer.\<close>

definition tosc_getNextFloat :: "char list \<Rightarrow> tosc_tinyosc \<Rightarrow> (int \<times> tosc_tinyosc) option" where
  "tosc_getNextFloat mem osc = do {
     u \<leftarrow> ntohl_at mem (o_marker osc);
     Some (u, osc\<lparr>o_marker := o_marker osc + 4\<rparr>)
   }"

text \<open>The result of \<open>tosc_getNextString\<close> is the pointer \<open>s\<close>, or \<open>None\<close> for \<^verbatim>\<open>NULL\<close>.\<close>

definition tosc_getNextString :: "char list \<Rightarrow> tosc_tinyosc \<Rightarrow> (int option \<times> tosc_tinyosc) option" where
  "tosc_getNextString mem osc = do {
     i \<leftarrow> strlen mem (o_marker osc);
     if o_marker osc + i \<ge> o_address osc + o_len osc then Some (None, osc)
     else Some (Some (o_marker osc), osc\<lparr>o_marker := o_marker osc + ((i + 4) AND NOT 3)\<rparr>)
   }"

text \<open>\<open>tosc_getNextBlob\<close> stores a pointer and a length through its two out-parameters; they
  are the first component of the result.\<close>

definition tosc_getNextBlob :: "char list \<Rightarrow> tosc_tinyosc \<Rightarrow> ((int option \<times> int) \<times> tosc_tinyosc) option" where
  "tosc_getNextBlob mem osc = do {
     u \<leftarrow> ntohl_at mem (o_marker osc);
     let i = to_int32 u;
     if o_marker osc + 4 + i \<le> o_buffer osc + o_len osc
     then Some ((Some (o_marker osc + 4), i), osc\<lparr>o_marker := o_marker osc + ((i + 7) AND NOT 3)\<rparr>)
     else Some ((None, 0), osc)
   }"

section \<open>Reading a message argument by argument\<close>

text \<open>
  The values of a message's arguments. \<open>Blob k b\<close> is a blob of length \<open>k\<close> with the bytes at
  \<open>b\<close>; \<open>Float32 u\<close> is the \<^verbatim>\<open>float\<close> with the 32-bit pattern \<open>u\<close>; \<open>Int32 k\<close> is the
  \<^verbatim>\<open>int\<close> \<open>k\<close>; \<open>Str s\<close> is the string \<open>s\<close>.
\<close>

datatype arg = Blob int "char list" | Float32 int | Int32 int | Str "char list"

text \<open>
  The loop of \<open>tosc_printOscBuffer\<close> over the characters of the format: each character calls
  its extraction operation on the same struct, in order. Where the source prints the value,
  \<open>next_args\<close> collects it: the string at the pointer that \<open>tosc_getNextString\<close> returns,
  the bytes of the view that \<open>tosc_getNextBlob\<close> returns, and \<open>None\<close> for an extraction that
  returned \<^verbatim>\<open>NULL\<close>. The characters \<open>F\<close>, \<open>I\<close>, \<open>N\<close>, \<open>T\<close> and the unknown ones extract
  nothing.
\<close>

fun next_args :: "char list \<Rightarrow> char list \<Rightarrow> tosc_tinyosc \<Rightarrow> (arg option list \<times> tosc_tinyosc) option" where
  "next_args [] mem osc = Some ([], osc)"
| "next_args (c # format) mem osc =
     (if c = CHR ''b'' then do {
        ((b, n), osc) \<leftarrow> tosc_getNextBlob mem osc;
        (vs, osc) \<leftarrow> next_args format mem osc;
        Some ((case b of None \<Rightarrow> None
               | Some p \<Rightarrow> Some (Blob n (take (nat n) (drop (nat p) mem)))) # vs, osc)
      } else if c = CHR ''f'' then do {
        (u, osc) \<leftarrow> tosc_getNextFloat mem osc;
        (vs, osc) \<leftarrow> next_args format mem osc;
        Some (Some (Float32 u) # vs, osc)
      } else if c = CHR ''i'' then do {
        (k, osc) \<leftarrow> tosc_getNextInt32 mem osc;
        (vs, osc) \<leftarrow> next_args format mem osc;
        Some (Some (Int32 k) # vs, osc)
      } else if c = CHR ''s'' then do {
        (s, osc) \<leftarrow> tosc_getNextString mem osc;
        (vs, osc) \<leftarrow> next_args format mem osc;
        Some ((case s of None \<Rightarrow> None | Some p \<Rightarrow> Some (Str (cstring_at mem p))) # vs, osc)
      } else next_args format mem osc)"

section \<open>The writer\<close>

text \<open>
  A string argument of \<open>tosc_write\<close> (the address, the format, the argument of an \<open>s\<close>) is the
  list of its bytes; as a C string it ends before its first null byte, or at the end of the
  list. The pointers \<open>address\<close> and \<open>format\<close> are not null: the source calls \<^verbatim>\<open>strlen\<close> on
  each before it tests it.
\<close>

definition c_string :: "char list \<Rightarrow> char list" where
  "c_string s = takeWhile (\<lambda>c. c \<noteq> CHR 0x00) s"

text \<open>\<^verbatim>\<open>memset(buffer, 0, len)\<close>; a negative \<open>len\<close> is a huge \<^verbatim>\<open>size_t\<close>.\<close>

definition memset_zero :: "char list \<Rightarrow> int \<Rightarrow> char list option" where
  "memset_zero buffer len =
     (if 0 \<le> len \<and> len \<le> int (length buffer)
      then Some (replicate (nat len) (CHR 0x00) @ drop (nat len) buffer)
      else None)"

text \<open>Writing the bytes \<open>bs\<close> at offset \<open>p\<close>: \<^verbatim>\<open>strcpy\<close> (with the terminator appended to
  \<open>bs\<close>), the store of one \<^verbatim>\<open>char\<close>, the store of a \<^verbatim>\<open>uint32_t\<close>, \<^verbatim>\<open>memcpy\<close>.\<close>

definition store_bytes :: "char list \<Rightarrow> int \<Rightarrow> char list \<Rightarrow> char list option" where
  "store_bytes mem p bs =
     (if 0 \<le> p \<and> p + int (length bs) \<le> int (length mem)
      then Some (take (nat p) mem @ bs @ drop (nat p + length bs) mem)
      else None)"

text \<open>\<^verbatim>\<open>memcpy(mem + p, b, n)\<close> reads \<open>n\<close> bytes at \<open>b\<close>.\<close>

definition memcpy :: "char list \<Rightarrow> int \<Rightarrow> char list \<Rightarrow> int \<Rightarrow> char list option" where
  "memcpy mem p b n =
     (if 0 \<le> n \<and> n \<le> int (length b) then store_bytes mem p (take (nat n) b) else None)"

text \<open>
  The body of the loop of \<open>tosc_write\<close>: the \<^verbatim>\<open>switch\<close> on one character of the format.
  The variadic arguments are a list \<open>ap\<close>; \<^verbatim>\<open>va_arg\<close> takes its head. \<open>Blob k b\<close> stands for
  the two arguments that a \<open>b\<close> takes, the \<^verbatim>\<open>int\<close> \<open>k\<close> and the pointer \<open>b\<close>; \<open>Float32 u\<close>
  for the \<^verbatim>\<open>double\<close> whose conversion to \<^verbatim>\<open>float\<close> has the pattern \<open>u\<close>. Taking an
  argument of another type, or from the empty list, is undefined behaviour (\<open>None\<close>). In the
  case of \<open>b\<close> the sums \<^verbatim>\<open>i + 4 + n\<close> and \<^verbatim>\<open>i + 3 + n\<close> are unsigned, since \<open>n\<close> is a
  \<^verbatim>\<open>uint32_t\<close>, and so are the comparison with \<open>len\<close> and the mask \<^verbatim>\<open>~0x3\<close>. The body
  either returns from \<open>tosc_write\<close> (\<open>Return\<close>, with the buffer and the returned number: \<open>-3\<close>
  for an argument that does not fit, \<open>-4\<close> for an unknown character) or leaves the
  \<^verbatim>\<open>switch\<close> (\<open>Break\<close>, with the remaining arguments, the buffer and the offset \<open>i\<close>).
\<close>

datatype switch_result = Return "char list" int | Break "arg list" "char list" int

definition write_arg :: "char \<Rightarrow> arg list \<Rightarrow> char list \<Rightarrow> int \<Rightarrow> int \<Rightarrow> switch_result option" where
  "write_arg c ap buffer len i =
     (if c = CHR ''b'' then
        (case ap of
           Blob k b # ap \<Rightarrow>
             let n = to_uint32 k in
             if to_uint32 (to_uint32 (i + 4) + n) > to_uint32 len then Some (Return buffer (- 3))
             else do {
               buffer \<leftarrow> store_bytes buffer i (be32_bytes n);
               let i = i + 4;
               buffer \<leftarrow> memcpy buffer i b n;
               let i = to_int32 (to_uint32 (to_uint32 (i + 3) + n) AND to_uint32 (NOT 3));
               Some (Break ap buffer i)
             }
         | _ \<Rightarrow> None)
      else if c = CHR ''f'' then
        if i + 4 > len then Some (Return buffer (- 3))
        else (case ap of
                Float32 f # ap \<Rightarrow> do {
                  buffer \<leftarrow> store_bytes buffer i (be32_bytes f);
                  Some (Break ap buffer (i + 4))
                }
              | _ \<Rightarrow> None)
      else if c = CHR ''i'' then
        if i + 4 > len then Some (Return buffer (- 3))
        else (case ap of
                Int32 k # ap \<Rightarrow> do {
                  buffer \<leftarrow> store_bytes buffer i (be32_bytes (to_uint32 k));
                  Some (Break ap buffer (i + 4))
                }
              | _ \<Rightarrow> None)
      else if c = CHR ''s'' then
        (case ap of
           Str str # ap \<Rightarrow>
             let s_len = int (length (c_string str)) in
             if i + s_len \<ge> len then Some (Return buffer (- 3))
             else do {
               buffer \<leftarrow> store_bytes buffer i (c_string str @ [CHR 0x00]);
               Some (Break ap buffer ((i + 4 + s_len) AND NOT 3))
             }
         | _ \<Rightarrow> None)
      else if c = CHR ''T'' \<or> c = CHR ''F'' \<or> c = CHR ''N'' \<or> c = CHR ''I'' then
        Some (Break ap buffer i)
      else Some (Return buffer (- 4)))"

text \<open>The loop \<^verbatim>\<open>for (int j = 0; format[j] != '\0'; ++j)\<close> and the final \<^verbatim>\<open>return i\<close>.\<close>

fun write_args :: "char list \<Rightarrow> arg list \<Rightarrow> char list \<Rightarrow> int \<Rightarrow> int \<Rightarrow> (char list \<times> int) option" where
  "write_args [] ap buffer len i = Some (buffer, i)"
| "write_args (c # format) ap buffer len i =
     (case write_arg c ap buffer len i of
        None \<Rightarrow> None
      | Some (Return buffer r) \<Rightarrow> Some (buffer, r)
      | Some (Break ap buffer i) \<Rightarrow> write_args format ap buffer len i)"

text \<open>\<open>tosc_write\<close> returns the buffer as it leaves it and the number it returns: the number
  of bytes written, or \<open>-1\<close> (address too long), \<open>-2\<close> (format too long), \<open>-3\<close>, \<open>-4\<close>.\<close>

definition tosc_write :: "char list \<Rightarrow> int \<Rightarrow> char list \<Rightarrow> char list \<Rightarrow> arg list \<Rightarrow> (char list \<times> int) option" where
  "tosc_write buffer len address format ap = do {
     buffer \<leftarrow> memset_zero buffer len;
     let i = int (length (c_string address));
     if i \<ge> len then Some (buffer, - 1) else do {
       buffer \<leftarrow> store_bytes buffer 0 (c_string address @ [CHR 0x00]);
       let i = (i + 4) AND NOT 3;
       buffer \<leftarrow> store_bytes buffer i [CHR '',''];
       let i = i + 1;
       let s_len = int (length (c_string format));
       if i + s_len \<ge> len then Some (buffer, - 2) else do {
         buffer \<leftarrow> store_bytes buffer i (c_string format @ [CHR 0x00]);
         let i = (i + 4 + s_len) AND NOT 3;
         write_args (c_string format) ap buffer len i
       }
     }
   }"

section \<open>Offsets in a buffer\<close>

text \<open>
  The claims about \<open>tosc_read\<close> speak of the first comma among the first \<open>len\<close> bytes and of
  the first null byte at or after it. \<open>first_index c xs\<close> is the position of the first \<open>c\<close> in
  \<open>xs\<close>, or the length of \<open>xs\<close> when there is none; \<open>comma_offset\<close> and
  \<open>terminator_offset\<close> are those two offsets (\<open>len\<close> when there is no such byte).
\<close>

definition first_index :: "char \<Rightarrow> char list \<Rightarrow> nat" where
  "first_index c xs = length (takeWhile (\<lambda>b. b \<noteq> c) xs)"

definition comma_offset :: "char list \<Rightarrow> int \<Rightarrow> int" where
  "comma_offset buffer len = int (first_index (CHR '','') (take (nat len) buffer))"

definition terminator_offset :: "char list \<Rightarrow> int \<Rightarrow> int" where
  "terminator_offset buffer len =
     comma_offset buffer len
       + int (first_index (CHR 0x00) (drop (nat (comma_offset buffer len)) (take (nat len) buffer)))"

section \<open>Valid arguments\<close>

text \<open>
  The round trip is about arguments in the range of their C type: the length of a blob is a
  non-negative \<^verbatim>\<open>int\<close> and its pointer has that many bytes, the pattern of a
  \<^verbatim>\<open>float\<close> is an unsigned 32-bit number, an integer is an \<^verbatim>\<open>int\<close>. \<open>arg_value\<close> is
  the value that the argument denotes: the first \<open>k\<close> bytes of a blob of length \<open>k\<close>, the C
  string of a string argument. \<open>value_tag\<close> holds of the format characters that take an
  argument, \<open>known_tag\<close> of those and of \<open>T\<close>, \<open>F\<close>, \<open>N\<close>, \<open>I\<close>; \<open>arg_tag\<close> is the
  character that takes the argument.
\<close>

definition valid_arg :: "arg \<Rightarrow> bool" where
  "valid_arg a = (case a of
       Blob k b \<Rightarrow> 0 \<le> k \<and> k < 2 ^ 31 \<and> k \<le> int (length b)
     | Float32 u \<Rightarrow> 0 \<le> u \<and> u < 2 ^ 32
     | Int32 k \<Rightarrow> - (2 ^ 31) \<le> k \<and> k < 2 ^ 31
     | Str s \<Rightarrow> True)"

definition arg_value :: "arg \<Rightarrow> arg" where
  "arg_value a = (case a of
       Blob k b \<Rightarrow> Blob k (take (nat k) b)
     | Float32 u \<Rightarrow> Float32 u
     | Int32 k \<Rightarrow> Int32 k
     | Str s \<Rightarrow> Str (c_string s))"

definition value_tag :: "char \<Rightarrow> bool" where
  "value_tag c = (c = CHR ''b'' \<or> c = CHR ''f'' \<or> c = CHR ''i'' \<or> c = CHR ''s'')"

definition known_tag :: "char \<Rightarrow> bool" where
  "known_tag c = (value_tag c \<or> c = CHR ''T'' \<or> c = CHR ''F'' \<or> c = CHR ''N'' \<or> c = CHR ''I'')"

definition arg_tag :: "arg \<Rightarrow> char" where
  "arg_tag a = (case a of
       Blob k b \<Rightarrow> CHR ''b''
     | Float32 u \<Rightarrow> CHR ''f''
     | Int32 k \<Rightarrow> CHR ''i''
     | Str s \<Rightarrow> CHR ''s'')"

text \<open>
  The size of the serialized form, from the wire format: a string takes its bytes and a
  terminator, padded with null bytes to a multiple of 4; an integer and a float take 4
  bytes; a blob takes the 4 bytes of its length and its bytes, padded to a multiple of 4. A
  message is the address string, the string of the comma and the format, and the arguments.
\<close>

definition string_size :: "char list \<Rightarrow> int" where
  "string_size s = (int (length s) + 4) AND NOT 3"

definition arg_size :: "arg \<Rightarrow> int" where
  "arg_size a = (case a of
       Blob k b \<Rightarrow> (k + 7) AND NOT 3
     | Float32 u \<Rightarrow> 4
     | Int32 k \<Rightarrow> 4
     | Str s \<Rightarrow> string_size (c_string s))"

definition message_size :: "char list \<Rightarrow> char list \<Rightarrow> arg list \<Rightarrow> int" where
  "message_size address format ap =
     string_size (c_string address) + string_size (CHR '','' # c_string format)
       + sum_list (map arg_size ap)"

section \<open>Example inputs\<close>

text \<open>Concrete structs and buffers at which the theorems below are instantiated.\<close>

definition example_osc :: tosc_tinyosc where
  "example_osc = \<lparr>o_format = 0, o_marker = 0, o_buffer = 0, o_len = 0, o_address = 0\<rparr>"

definition header_a_f :: "char list" where
  "header_a_f = [CHR ''/'', CHR ''a'', CHR 0x00, CHR 0x00, CHR '','', CHR ''f'', CHR 0x00, CHR 0x00]"

definition no_slash_buffer :: "char list" where
  "no_slash_buffer = [CHR ''a'', CHR ''b'', CHR '','', CHR ''f'', CHR 0x00]"

definition string_message :: "char list" where
  "string_message = [CHR ''/'', CHR ''a'', CHR 0x00, CHR 0x00, CHR '','', CHR ''s'', CHR 0x00, CHR 0x00,
                     CHR ''h'', CHR ''i'', CHR 0x00, CHR 0x00]"

definition blob_message :: "char list" where
  "blob_message = [CHR ''/'', CHR ''a'', CHR 0x00, CHR 0x00, CHR '','', CHR ''b'', CHR 0x00, CHR 0x00,
                   CHR 0x00, CHR 0x00, CHR 0x00, CHR 0x05,
                   CHR ''a'', CHR ''b'', CHR ''c'', CHR ''d'', CHR ''e'', CHR 0x00, CHR 0x00, CHR 0x00]"

definition short_message :: "char list" where
  "short_message = [CHR '','', CHR 0x00, CHR 0x00, CHR 0x00, CHR 0x00, CHR 0x00]"

definition string_tail_message :: "char list" where
  "string_tail_message = [CHR '','', CHR 0x00, CHR 0x00, CHR 0x00,
                          CHR ''a'', CHR ''b'', CHR ''c'', CHR ''d'', CHR 0x00]"

definition long_object :: "char list" where
  "long_object = [CHR '','', CHR 0x00, CHR 0x00, CHR 0x00, CHR 0x00, CHR 0x00, CHR 0x00, CHR 0x2A]"

definition at_8 :: "int \<Rightarrow> tosc_tinyosc" where
  "at_8 n = \<lparr>o_format = 5, o_marker = 8, o_buffer = 0, o_len = n, o_address = 0\<rparr>"

definition button1_message :: "char list" where
  "button1_message =
     ''/button1'' @ [CHR 0x00, CHR 0x00, CHR 0x00, CHR 0x00, CHR '','', CHR ''f'', CHR 0x00, CHR 0x00,
                     CHR 0x3F, CHR 0x00, CHR 0x00, CHR 0x00]"

definition example_args :: "arg list" where
  "example_args = [Int32 (- 2), Str ''hi'', Blob 5 ''abcdefg'']"

definition example_written :: "char list" where
  "example_written =
     [CHR ''/'', CHR ''a'', CHR 0x00, CHR 0x00, CHR '','', CHR ''i'', CHR ''s'', CHR ''b'',
      CHR ''T'', CHR 0x00, CHR 0x00, CHR 0x00, CHR 0xFF, CHR 0xFF, CHR 0xFF, CHR 0xFE,
      CHR ''h'', CHR ''i'', CHR 0x00, CHR 0x00, CHR 0x00, CHR 0x00, CHR 0x00, CHR 0x05,
      CHR ''a'', CHR ''b'', CHR ''c'', CHR ''d'', CHR ''e'', CHR 0x00, CHR 0x00, CHR 0x00,
      CHR ''x'', CHR ''x'', CHR ''x'', CHR ''x'']"

definition comma_address_written :: "char list" where
  "comma_address_written =
     [CHR ''/'', CHR ''a'', CHR '','', CHR ''b'', CHR 0x00, CHR 0x00, CHR 0x00, CHR 0x00,
      CHR '','', CHR ''i'', CHR 0x00, CHR 0x00, CHR 0x00, CHR 0x00, CHR 0x00, CHR 0x01]"

definition negative_blob_message :: "char list" where
  "negative_blob_message = [CHR '','', CHR ''b'', CHR ''b'', CHR 0x00, CHR 0x00, CHR 0x00, CHR 0x00, CHR 0x00,
                            CHR 0xFF, CHR 0xFF, CHR 0xFF, CHR 0xF8]"

section \<open>Arithmetic of the padding rule\<close>

lemma and_not_mask2: "(x::int) AND NOT (mask 2) = push_bit 2 (drop_bit 2 x)"
proof (rule bit_eqI)
  fix n
  have *: "2 \<le> n \<Longrightarrow> Suc (Suc (n - 2)) = n" by simp
  show "bit (x AND NOT (mask 2)) n = bit (push_bit 2 (drop_bit 2 x)) n"
    by (auto simp add: bit_simps * not_less)
qed

lemma and_minus4: "(x::int) AND - 4 = x - x mod 4"
proof -
  have "NOT (mask 2) = (- 4 :: int)" by (simp add: mask_eq_exp_minus_1)
  then have "x AND - 4 = push_bit 2 (drop_bit 2 x)" using and_not_mask2 [of x] by simp
  then show ?thesis using bits_ident [of 2 x] by (simp add: take_bit_eq_mod)
qed

lemma and_not3: "(x::int) AND NOT 3 = x - x mod 4"
  by (simp add: and_minus4)

section \<open>The scanning loop\<close>

lemma first_index_le: "first_index c xs \<le> length xs"
  by (simp add: first_index_def length_takeWhile_le)

lemma first_index_less_iff: "first_index c xs < length xs \<longleftrightarrow> c \<in> set xs"
proof -
  have "takeWhile (\<lambda>b. b \<noteq> c) xs = xs \<longleftrightarrow> c \<notin> set xs"
    by (auto simp add: takeWhile_eq_all_conv)
  moreover have "length (takeWhile (\<lambda>b. b \<noteq> c) xs) = length xs \<longleftrightarrow> takeWhile (\<lambda>b. b \<noteq> c) xs = xs"
    by (induction xs) auto
  ultimately show ?thesis
    using length_takeWhile_le [of "\<lambda>b. b \<noteq> c" xs] by (auto simp add: first_index_def)
qed

lemma first_index_nth: "c \<in> set xs \<Longrightarrow> xs ! first_index c xs = c"
  using nth_length_takeWhile [of "\<lambda>b. b \<noteq> c" xs] first_index_less_iff [of c xs]
  by (simp add: first_index_def)

lemma first_index_before: "j < first_index c xs \<Longrightarrow> xs ! j \<noteq> c"
proof (induction xs arbitrary: j)
  case Nil
  then show ?case by (simp add: first_index_def)
next
  case (Cons x xs)
  then show ?case by (cases j) (auto simp add: first_index_def split: if_splits)
qed

lemma first_index_Cons: "first_index c (x # xs) = (if x = c then 0 else Suc (first_index c xs))"
  by (simp add: first_index_def)

lemma scan_eq:
  "0 \<le> i \<Longrightarrow> i \<le> len \<Longrightarrow>
   scan c buffer len i =
     (if i + int (first_index c (drop (nat i) (take (nat len) buffer))) < len
         \<and> int (length buffer) \<le> i + int (first_index c (drop (nat i) (take (nat len) buffer)))
      then None
      else Some (i + int (first_index c (drop (nat i) (take (nat len) buffer)))))"
proof (induction c buffer len i rule: scan.induct)
  case (1 c buffer len i)
  show ?case
  proof (cases "i < len")
    case False
    with 1 show ?thesis by (simp add: scan.simps first_index_def)
  next
    case True
    show ?thesis
    proof (cases "i < int (length buffer)")
      case False
      then have "load buffer i = None" by (simp add: load_def)
      moreover have "drop (nat i) (take (nat len) buffer) = []" using False by simp
      ultimately show ?thesis using True False by (subst scan.simps) (simp add: first_index_def)
    next
      case inb: True
      with True 1 have lt: "nat i < length (take (nat len) buffer)" by simp
      have ld: "load buffer i = Some (buffer ! nat i)" using inb 1 by (simp add: load_def)
      have "drop (nat i) (take (nat len) buffer) = (take (nat len) buffer) ! nat i # drop (Suc (nat i)) (take (nat len) buffer)"
        by (rule Cons_nth_drop_Suc [OF lt, symmetric])
      moreover have "Suc (nat i) = nat (i + 1)" using 1 by simp
      moreover have "take (nat len) buffer ! nat i = buffer ! nat i" using lt by simp
      ultimately have dr: "drop (nat i) (take (nat len) buffer) = buffer ! nat i # drop (nat (i + 1)) (take (nat len) buffer)"
        by simp
      show ?thesis
      proof (cases "buffer ! nat i = c")
        case True
        then show ?thesis using ld \<open>i < len\<close> inb dr by (subst scan.simps) (simp add: first_index_Cons)
      next
        case False
        have ih: "scan c buffer len (i + 1) =
          (if i + 1 + int (first_index c (drop (nat (i + 1)) (take (nat len) buffer))) < len
             \<and> int (length buffer) \<le> i + 1 + int (first_index c (drop (nat (i + 1)) (take (nat len) buffer)))
           then None
           else Some (i + 1 + int (first_index c (drop (nat (i + 1)) (take (nat len) buffer)))))"
          using "1.IH"[OF \<open>i < len\<close> ld False] 1 True by simp
        have "scan c buffer len i = scan c buffer len (i + 1)"
          using ld \<open>i < len\<close> False by (subst scan.simps) simp
        then show ?thesis unfolding ih dr using False by (simp add: first_index_Cons add.assoc)
      qed
    qed
  qed
qed


section \<open>What \<open>tosc_read\<close> computes\<close>

lemma comma_offset_bounds: "0 \<le> comma_offset buffer len" "0 \<le> len \<Longrightarrow> comma_offset buffer len \<le> len"
  "comma_offset buffer len \<le> int (length buffer)"
  using first_index_le [of "CHR '',''" "take (nat len) buffer"] by (auto simp add: comma_offset_def)

lemma terminator_offset_bounds: "comma_offset buffer len \<le> terminator_offset buffer len"
  "0 \<le> len \<Longrightarrow> terminator_offset buffer len \<le> len"
  "terminator_offset buffer len \<le> int (length buffer)"
  using first_index_le [of "CHR 0x00" "drop (nat (comma_offset buffer len)) (take (nat len) buffer)"]
    comma_offset_bounds [where buffer=buffer and len=len]
  by (auto simp add: terminator_offset_def)

lemma tosc_read_eq:
  assumes "0 \<le> len"
  shows "tosc_read osc buffer len =
     (if comma_offset buffer len < len \<and> int (length buffer) \<le> comma_offset buffer len then None
      else if comma_offset buffer len = len then Some (- 1, osc\<lparr>o_address := 0\<rparr>)
      else if terminator_offset buffer len < len \<and> int (length buffer) \<le> terminator_offset buffer len then None
      else if terminator_offset buffer len = len
        then Some (- 2, osc\<lparr>o_address := 0, o_format := comma_offset buffer len + 1\<rparr>)
      else Some (0, osc\<lparr>o_address := 0, o_format := comma_offset buffer len + 1,
                        o_marker := (terminator_offset buffer len + 4) AND NOT 3,
                        o_buffer := 0, o_len := len\<rparr>))"
proof -
  have s1: "scan (CHR '','') buffer len 0 =
      (if comma_offset buffer len < len \<and> int (length buffer) \<le> comma_offset buffer len then None
       else Some (comma_offset buffer len))"
    using scan_eq [of 0 len "CHR '',''" buffer] assms by (simp add: comma_offset_def)
  have s2: "scan (CHR 0x00) buffer len (comma_offset buffer len) =
      (if terminator_offset buffer len < len \<and> int (length buffer) \<le> terminator_offset buffer len then None
       else Some (terminator_offset buffer len))"
    using scan_eq [of "comma_offset buffer len" len "CHR 0x00" buffer] assms comma_offset_bounds [where buffer=buffer and len=len]
    by (simp add: terminator_offset_def)
  show ?thesis
    unfolding tosc_read_def s1 by (simp add: s2 Let_def)
qed


lemma first_index_le_pos: "j < length xs \<Longrightarrow> xs ! j = c \<Longrightarrow> first_index c xs \<le> j"
  using first_index_before [of j c xs] by (cases "j < first_index c xs") auto

lemma comma_offset_found:
  assumes "CHR '','' \<in> set (take (nat len) buffer)"
  shows "comma_offset buffer len < len" "comma_offset buffer len < int (length buffer)"
    "buffer ! nat (comma_offset buffer len) = CHR '',''"
proof -
  let ?k = "first_index (CHR '','') (take (nat len) buffer)"
  have lt: "?k < length (take (nat len) buffer)"
    using assms first_index_less_iff [of "CHR '',''" "take (nat len) buffer"] by blast
  then show "comma_offset buffer len < len" "comma_offset buffer len < int (length buffer)"
    by (auto simp add: comma_offset_def)
  have "take (nat len) buffer ! ?k = CHR '',''" using assms by (rule first_index_nth)
  then show "buffer ! nat (comma_offset buffer len) = CHR '',''" using lt by (simp add: comma_offset_def)
qed

lemma comma_offset_none:
  "0 \<le> len \<Longrightarrow> len \<le> int (length buffer) \<Longrightarrow> CHR '','' \<notin> set (take (nat len) buffer) \<Longrightarrow> comma_offset buffer len = len"
  using first_index_less_iff [of "CHR '',''" "take (nat len) buffer"] first_index_le [of "CHR '',''" "take (nat len) buffer"]
  by (simp add: comma_offset_def)

lemma terminator_offset_found:
  assumes "CHR 0x00 \<in> set (drop (nat (comma_offset buffer len)) (take (nat len) buffer))"
  shows "terminator_offset buffer len < len" "terminator_offset buffer len < int (length buffer)"
    "buffer ! nat (terminator_offset buffer len) = CHR 0x00"
proof -
  let ?c = "nat (comma_offset buffer len)"
  let ?xs = "drop ?c (take (nat len) buffer)"
  let ?t = "first_index (CHR 0x00) ?xs"
  have lt: "?t < length ?xs" using assms first_index_less_iff [of "CHR 0x00" ?xs] by blast
  have c0: "0 \<le> comma_offset buffer len" by (rule comma_offset_bounds)
  have t: "terminator_offset buffer len = int (?c + ?t)" using c0 by (simp add: terminator_offset_def)
  from lt have lt': "?c + ?t < length (take (nat len) buffer)" unfolding length_drop by linarith
  then show "terminator_offset buffer len < len" "terminator_offset buffer len < int (length buffer)"
    unfolding t by auto
  have "?xs ! ?t = CHR 0x00" using assms by (rule first_index_nth)
  moreover have "?xs ! ?t = take (nat len) buffer ! (?c + ?t)" using lt' by simp
  moreover have "take (nat len) buffer ! (?c + ?t) = buffer ! (?c + ?t)" using lt' by simp
  ultimately have "buffer ! (?c + ?t) = CHR 0x00" by simp
  then show "buffer ! nat (terminator_offset buffer len) = CHR 0x00" by (simp only: t nat_int)
qed

lemma terminator_offset_none:
  assumes "0 \<le> len" "len \<le> int (length buffer)"
    "CHR 0x00 \<notin> set (drop (nat (comma_offset buffer len)) (take (nat len) buffer))"
  shows "terminator_offset buffer len = len"
proof -
  let ?c = "nat (comma_offset buffer len)"
  let ?xs = "drop ?c (take (nat len) buffer)"
  have "first_index (CHR 0x00) ?xs = length ?xs"
    using assms(3) first_index_less_iff [of "CHR 0x00" ?xs] first_index_le [of "CHR 0x00" ?xs] by simp
  then show ?thesis
    using assms(1,2) comma_offset_bounds [where buffer=buffer and len=len]
    by (simp add: terminator_offset_def)
qed

lemma comma_offset_le:
  assumes "0 \<le> k" "k < len" "k < int (length buffer)" "buffer ! nat k = CHR '',''"
  shows "comma_offset buffer len \<le> k" "CHR '','' \<in> set (take (nat len) buffer)"
proof -
  have lt: "nat k < length (take (nat len) buffer)" using assms by simp
  moreover have nth: "take (nat len) buffer ! nat k = CHR '',''" using assms by simp
  ultimately have "first_index (CHR '','') (take (nat len) buffer) \<le> nat k" by (rule first_index_le_pos)
  then show "comma_offset buffer len \<le> k" using assms by (simp add: comma_offset_def)
  show "CHR '','' \<in> set (take (nat len) buffer)" using lt nth nth_mem by metis
qed

lemma terminator_offset_le:
  assumes "comma_offset buffer len \<le> j" "j < len" "j < int (length buffer)" "buffer ! nat j = CHR 0x00"
  shows "terminator_offset buffer len \<le> j"
    "CHR 0x00 \<in> set (drop (nat (comma_offset buffer len)) (take (nat len) buffer))"
proof -
  let ?c = "nat (comma_offset buffer len)"
  let ?xs = "drop ?c (take (nat len) buffer)"
  have c0: "0 \<le> comma_offset buffer len" by (rule comma_offset_bounds)
  have lt: "nat j < length (take (nat len) buffer)" using assms c0 by simp
  have cj: "?c \<le> nat j" using assms c0 by simp
  have lt': "nat j - ?c < length ?xs" using lt cj unfolding length_drop by linarith
  have "?xs ! (nat j - ?c) = take (nat len) buffer ! (?c + (nat j - ?c))"
  proof (rule nth_drop)
    show "?c \<le> length (take (nat len) buffer)" using lt cj by linarith
  qed
  also have "\<dots> = take (nat len) buffer ! nat j" using cj by simp
  also have "\<dots> = CHR 0x00" using assms lt by simp
  finally have nth: "?xs ! (nat j - ?c) = CHR 0x00" .
  from lt' nth have "first_index (CHR 0x00) ?xs \<le> nat j - ?c" by (rule first_index_le_pos)
  then show "terminator_offset buffer len \<le> j" using cj c0 assms by (simp add: terminator_offset_def)
  show "CHR 0x00 \<in> set ?xs" using lt' nth nth_mem by metis
qed

section \<open>The return code of \<open>tosc_read\<close>\<close>

text \<open>
  Claim C4. For a length \<open>len\<close> between 0 and the size of the buffer, \<open>tosc_read\<close> returns
  \<open>-1\<close> (MissingFormatDelimiter) if and only if no comma occurs among the first \<open>len\<close> bytes;
  when there is a comma, it returns \<open>-2\<close> (UnterminatedFormatString) if and only if no null
  byte occurs among the first \<open>len\<close> bytes at or after the first comma; in every other case
  it returns \<open>0\<close>.
\<close>

theorem tosc_read_error_codes:
  assumes "0 \<le> len" and "len \<le> int (length buffer)"
  shows "\<exists>r osc'. tosc_read osc buffer len = Some (r, osc') \<and>
     (r = - 1 \<longleftrightarrow> CHR '','' \<notin> set (take (nat len) buffer)) \<and>
     (CHR '','' \<in> set (take (nat len) buffer) \<longrightarrow>
        (r = - 2 \<longleftrightarrow> CHR 0x00 \<notin> set (drop (nat (comma_offset buffer len)) (take (nat len) buffer)))) \<and>
     (r \<noteq> - 1 \<and> r \<noteq> - 2 \<longrightarrow> r = 0)"
proof (cases "CHR '','' \<in> set (take (nat len) buffer)")
  case False
  then have "comma_offset buffer len = len" using assms by (simp add: comma_offset_none)
  then show ?thesis using False assms by (simp add: tosc_read_eq)
next
  case comma: True
  note k = comma_offset_found [OF comma]
  show ?thesis
  proof (cases "CHR 0x00 \<in> set (drop (nat (comma_offset buffer len)) (take (nat len) buffer))")
    case True
    note t = terminator_offset_found [OF True]
    show ?thesis using comma True k t assms by (simp add: tosc_read_eq)
  next
    case False
    then have "terminator_offset buffer len = len" using assms by (simp add: terminator_offset_none)
    then show ?thesis using comma False k assms by (simp add: tosc_read_eq)
  qed
qed

theorem tosc_read_error_codes_witness:
  "(0::int) \<le> 8 \<and> 8 \<le> int (length header_a_f) \<and>
   (\<exists>r osc'. tosc_read example_osc header_a_f 8 = Some (r, osc') \<and>
     (r = - 1 \<longleftrightarrow> CHR '','' \<notin> set (take (nat 8) header_a_f)) \<and>
     (CHR '','' \<in> set (take (nat 8) header_a_f) \<longrightarrow>
        (r = - 2 \<longleftrightarrow> CHR 0x00 \<notin> set (drop (nat (comma_offset header_a_f 8)) (take (nat 8) header_a_f)))) \<and>
     (r \<noteq> - 1 \<and> r \<noteq> - 2 \<longrightarrow> r = 0))"
proof -
  have h: "(0::int) \<le> 8" "8 \<le> int (length header_a_f)" by (simp_all add: header_a_f_def)
  from tosc_read_error_codes [OF h, of example_osc] h show ?thesis by blast
qed

text \<open>
  Claim C10. \<open>tosc_read\<close> requires no null byte before the comma and no leading slash:
  whenever a comma occurs at an offset \<open>k\<close> and a null byte at an offset \<open>j\<close> with
  \<open>k \<le> j < len\<close>, inside the buffer, it returns \<open>0\<close>, whatever the other bytes are.
\<close>

theorem tosc_read_ignores_address:
  assumes "0 \<le> k" and "k \<le> j" and "j < len" and "j < int (length buffer)"
    and "buffer ! nat k = CHR '',''" and "buffer ! nat j = CHR 0x00"
  shows "\<exists>osc'. tosc_read osc buffer len = Some (0, osc')"
proof -
  have len: "0 \<le> len" using assms by simp
  have k: "comma_offset buffer len \<le> k" using assms by (intro comma_offset_le) simp_all
  then have t: "terminator_offset buffer len \<le> j" using assms by (intro terminator_offset_le) simp_all
  have "comma_offset buffer len < len" "comma_offset buffer len < int (length buffer)"
    "terminator_offset buffer len < len" "terminator_offset buffer len < int (length buffer)"
    using k t assms by simp_all
  then show ?thesis using len by (simp add: tosc_read_eq)
qed

theorem tosc_read_ignores_address_witness:
  "(0::int) \<le> 2 \<and> (2::int) \<le> 4 \<and> (4::int) < 5 \<and> 4 < int (length no_slash_buffer) \<and>
   no_slash_buffer ! nat 2 = CHR '','' \<and> no_slash_buffer ! nat 4 = CHR 0x00 \<and>
   CHR 0x00 \<notin> set (take 2 no_slash_buffer) \<and> hd no_slash_buffer \<noteq> CHR ''/'' \<and>
   (\<exists>osc'. tosc_read example_osc no_slash_buffer 5 = Some (0, osc'))"
proof -
  have h: "(0::int) \<le> 2" "(2::int) \<le> 4" "(4::int) < 5" "4 < int (length no_slash_buffer)"
    "no_slash_buffer ! nat 2 = CHR '',''" "no_slash_buffer ! nat 4 = CHR 0x00"
    by (simp_all add: no_slash_buffer_def)
  have "CHR 0x00 \<notin> set (take 2 no_slash_buffer)" "hd no_slash_buffer \<noteq> CHR ''/''"
    by (simp_all add: no_slash_buffer_def)
  with tosc_read_ignores_address [OF h, of example_osc] h show ?thesis by blast
qed

section \<open>The start of the argument region\<close>

text \<open>
  Claim C5. When \<open>tosc_read\<close> returns \<open>0\<close> for a length \<open>len \<ge> 0\<close>, the byte at
  \<open>terminator_offset buffer len\<close> is the null byte that ends the format string (the first one
  at or after the first comma), and the cursor is set to \<open>(t + 4) AND NOT 3\<close> for that offset
  \<open>t\<close>: a multiple of 4, strictly greater than \<open>t\<close> and at most \<open>t + 4\<close>.
\<close>

theorem tosc_read_marker_aligned:
  assumes "0 \<le> len" and "tosc_read osc buffer len = Some (0, osc')"
  shows "load buffer (comma_offset buffer len) = Some (CHR '','') \<and>
     comma_offset buffer len \<le> terminator_offset buffer len \<and>
     terminator_offset buffer len < len \<and>
     load buffer (terminator_offset buffer len) = Some (CHR 0x00) \<and>
     o_marker osc' = (terminator_offset buffer len + 4) AND NOT 3 \<and>
     4 dvd o_marker osc' \<and>
     terminator_offset buffer len < o_marker osc' \<and>
     o_marker osc' \<le> terminator_offset buffer len + 4"
proof -
  let ?k = "comma_offset buffer len" and ?t = "terminator_offset buffer len"
  from assms have k: "?k < len" "?k < int (length buffer)" and t: "?t < len" "?t < int (length buffer)"
    and m: "o_marker osc' = (?t + 4) AND NOT 3"
    using comma_offset_bounds [where buffer=buffer and len=len] terminator_offset_bounds [where buffer=buffer and len=len]
    by (auto simp add: tosc_read_eq split: if_splits)
  have k0: "0 \<le> ?k" and kt: "?k \<le> ?t" by (rule comma_offset_bounds, rule terminator_offset_bounds)
  have "first_index (CHR '','') (take (nat len) buffer) < length (take (nat len) buffer)"
    using k unfolding comma_offset_def length_take by linarith
  then have "CHR '','' \<in> set (take (nat len) buffer)"
    using first_index_less_iff [of "CHR '',''" "take (nat len) buffer"] by blast
  then have c: "buffer ! nat ?k = CHR '',''" by (rule comma_offset_found)
  have "first_index (CHR 0x00) (drop (nat ?k) (take (nat len) buffer)) < length (drop (nat ?k) (take (nat len) buffer))"
    using t k k0 unfolding terminator_offset_def length_drop length_take by linarith
  then have "CHR 0x00 \<in> set (drop (nat ?k) (take (nat len) buffer))"
    using first_index_less_iff [of "CHR 0x00" "drop (nat ?k) (take (nat len) buffer)"] by blast
  then have z: "buffer ! nat ?t = CHR 0x00" by (rule terminator_offset_found)
  have al: "(?t + 4) AND NOT 3 = ?t + 4 - (?t + 4) mod 4" by (rule and_not3)
  have "4 dvd (?t + 4 - (?t + 4) mod 4)" by presburger
  moreover have "?t < ?t + 4 - (?t + 4) mod 4" "?t + 4 - (?t + 4) mod 4 \<le> ?t + 4" by presburger+
  ultimately show ?thesis using k k0 kt t c z m al by (simp add: load_def)
qed

theorem tosc_read_marker_aligned_witness:
  "(0::int) \<le> 8 \<and>
   tosc_read example_osc header_a_f 8
     = Some (0, \<lparr>o_format = 5, o_marker = 8, o_buffer = 0, o_len = 8, o_address = 0\<rparr>) \<and>
   terminator_offset header_a_f 8 = 6 \<and> (4::int) dvd 8 \<and> (6::int) < 8"
proof -
  have h: "(0::int) \<le> 8"
    "tosc_read example_osc header_a_f 8
       = Some (0, \<lparr>o_format = 5, o_marker = 8, o_buffer = 0, o_len = 8, o_address = 0\<rparr>)"
    by (simp_all add: tosc_read_def scan.simps load_def header_a_f_def example_osc_def)
  have t: "terminator_offset header_a_f 8 = 6"
    by (simp add: terminator_offset_def comma_offset_def first_index_def header_a_f_def)
  from tosc_read_marker_aligned [OF h] h t show ?thesis by simp
qed

section \<open>The extraction of strings and blobs\<close>

lemma pad4_bounds: "4 dvd ((i::int) + 4) AND NOT 3" "i < (i + 4) AND NOT 3" "(i + 4) AND NOT 3 \<le> i + 4"
  unfolding and_not3 by presburger+

lemma pad7_bounds: "4 dvd ((n::int) + 7) AND NOT 3" "n + 4 \<le> (n + 7) AND NOT 3" "(n + 7) AND NOT 3 < n + 8"
  unfolding and_not3 by presburger+

lemma strlen_Some:
  assumes "strlen mem p = Some i"
  shows "0 \<le> p" "0 \<le> i" "p + i < int (length mem)" "i = int (first_index (CHR 0x00) (drop (nat p) mem))"
    "mem ! nat (p + i) = CHR 0x00" "\<And>j. 0 \<le> j \<Longrightarrow> j < i \<Longrightarrow> mem ! nat (p + j) \<noteq> CHR 0x00"
proof -
  let ?xs = "drop (nat p) mem"
  from assms have p: "0 \<le> p" and z: "CHR 0x00 \<in> set ?xs" and i: "i = int (first_index (CHR 0x00) ?xs)"
    by (auto simp add: strlen_def first_index_def split: if_splits)
  show "0 \<le> p" by fact
  show "0 \<le> i" using i by simp
  show "i = int (first_index (CHR 0x00) ?xs)" by fact
  have lt: "first_index (CHR 0x00) ?xs < length ?xs"
    using z first_index_less_iff [of "CHR 0x00" ?xs] by blast
  then have lt': "nat p + first_index (CHR 0x00) ?xs < length mem" unfolding length_drop by linarith
  then show "p + i < int (length mem)" using p i by linarith
  have "?xs ! first_index (CHR 0x00) ?xs = CHR 0x00" using z by (rule first_index_nth)
  moreover have "?xs ! first_index (CHR 0x00) ?xs = mem ! (nat p + first_index (CHR 0x00) ?xs)"
    using lt' by (intro nth_drop) linarith
  moreover have "nat (p + i) = nat p + first_index (CHR 0x00) ?xs" using p i by (simp add: nat_add_distrib)
  ultimately show "mem ! nat (p + i) = CHR 0x00" by simp
  fix j :: int assume j: "0 \<le> j" "j < i"
  then have "nat j < first_index (CHR 0x00) ?xs" using i by linarith
  then have "?xs ! nat j \<noteq> CHR 0x00" by (rule first_index_before)
  moreover have "?xs ! nat j = mem ! (nat p + nat j)" using lt' by (intro nth_drop) linarith
  moreover have "nat (p + j) = nat p + nat j" using p j by (simp add: nat_add_distrib)
  ultimately show "mem ! nat (p + j) \<noteq> CHR 0x00" by simp
qed

lemma cstring_at_strlen:
  assumes "strlen mem p = Some i"
  shows "cstring_at mem p = take (nat i) (drop (nat p) mem)"
proof -
  have "takeWhile (\<lambda>c. c \<noteq> CHR 0x00) (drop (nat p) mem)
       = take (length (takeWhile (\<lambda>c. c \<noteq> CHR 0x00) (drop (nat p) mem))) (drop (nat p) mem)"
    by (rule takeWhile_eq_take)
  then show ?thesis using strlen_Some(4) [OF assms] by (simp add: cstring_at_def first_index_def)
qed

text \<open>
  Claim C7. \<open>tosc_getNextString\<close> measures the run of non-null bytes at the cursor: \<open>i\<close> is
  its length and the null byte that ends it is at offset \<open>cursor + i\<close>. If that offset
  reaches or exceeds the end of the buffer (\<open>o_address + o_len\<close>, where \<open>tosc_read\<close> sets
  \<open>o_address\<close> to the start of the buffer) the result is \<^verbatim>\<open>NULL\<close> and the struct is
  unchanged; otherwise the result is the pointer to the string at the cursor, and the cursor
  advances by \<open>(i + 4) AND NOT 3\<close>, the least multiple of 4 greater than \<open>i\<close>.
\<close>

theorem tosc_getNextString_result:
  assumes "strlen mem (o_marker osc) = Some i"
  shows "tosc_getNextString mem osc =
           (if o_address osc + o_len osc \<le> o_marker osc + i then Some (None, osc)
            else Some (Some (o_marker osc), osc\<lparr>o_marker := o_marker osc + ((i + 4) AND NOT 3)\<rparr>)) \<and>
         cstring_at mem (o_marker osc) = take (nat i) (drop (nat (o_marker osc)) mem) \<and>
         load mem (o_marker osc + i) = Some (CHR 0x00) \<and>
         (\<forall>j. 0 \<le> j \<and> j < i \<longrightarrow> (\<exists>c. load mem (o_marker osc + j) = Some c \<and> c \<noteq> CHR 0x00)) \<and>
         4 dvd (i + 4) AND NOT 3 \<and> i < (i + 4) AND NOT 3 \<and> (i + 4) AND NOT 3 \<le> i + 4"
proof -
  note s = strlen_Some [OF assms]
  have 1: "tosc_getNextString mem osc =
           (if o_address osc + o_len osc \<le> o_marker osc + i then Some (None, osc)
            else Some (Some (o_marker osc), osc\<lparr>o_marker := o_marker osc + ((i + 4) AND NOT 3)\<rparr>))"
    using assms by (simp add: tosc_getNextString_def)
  have 3: "load mem (o_marker osc + i) = Some (CHR 0x00)" using s(1,2,3,5) by (simp add: load_def)
  have 4: "\<forall>j. 0 \<le> j \<and> j < i \<longrightarrow> (\<exists>c. load mem (o_marker osc + j) = Some c \<and> c \<noteq> CHR 0x00)"
    using s(1,3) s(6) by (simp add: load_def)
  show ?thesis using 1 3 4 cstring_at_strlen [OF assms] pad4_bounds [of i] by blast
qed

theorem tosc_getNextString_result_witness:
  "strlen string_message 8 = Some 2 \<and>
   tosc_getNextString string_message (example_osc\<lparr>o_marker := 8, o_len := 12\<rparr>)
     = Some (Some 8, example_osc\<lparr>o_marker := 12, o_len := 12\<rparr>) \<and>
   cstring_at string_message 8 = ''hi'' \<and>
   tosc_getNextString string_message (example_osc\<lparr>o_marker := 8, o_len := 10\<rparr>)
     = Some (None, example_osc\<lparr>o_marker := 8, o_len := 10\<rparr>)"
proof -
  have h: "strlen string_message 8 = Some 2" by (simp add: strlen_def string_message_def)
  have t: "take (nat 2) (drop (nat 8) string_message) = ''hi''" by (simp add: string_message_def)
  show ?thesis
    using h t tosc_getNextString_result [of string_message "example_osc\<lparr>o_marker := 8, o_len := 12\<rparr>" 2]
      tosc_getNextString_result [of string_message "example_osc\<lparr>o_marker := 8, o_len := 10\<rparr>" 2]
    by (simp add: example_osc_def)
qed

lemma be32_4: "be32 [a, b, c, d] = of_char a * 2 ^ 24 + of_char b * 2 ^ 16 + of_char c * 2 ^ 8 + of_char d"
  by (simp add: be32_def)

lemma to_int32_range: "- (2 ^ 31) \<le> to_int32 u" "to_int32 u < 2 ^ 31"
proof -
  have "0 \<le> u mod 2 ^ 32" "u mod 2 ^ 32 < 2 ^ 32" by simp_all
  then show "- (2 ^ 31) \<le> to_int32 u" "to_int32 u < 2 ^ 31"
    unfolding to_int32_def by (auto split: if_splits)
qed

lemma ntohl_at_Some:
  assumes "ntohl_at mem p = Some u"
  shows "0 \<le> p" "p + 4 \<le> int (length mem)"
    "u = of_char (mem ! nat p) * 2 ^ 24 + of_char (mem ! nat (p + 1)) * 2 ^ 16
          + of_char (mem ! nat (p + 2)) * 2 ^ 8 + of_char (mem ! nat (p + 3))"
proof -
  from assms have p: "0 \<le> p" "p + 4 \<le> int (length mem)" and u: "u = be32 (take 4 (drop (nat p) mem))"
    by (auto simp add: ntohl_at_def split: if_splits)
  show "0 \<le> p" "p + 4 \<le> int (length mem)" by fact+
  have l: "nat p + 4 \<le> length mem" using p by linarith
  have "take 4 (drop (nat p) mem) = [mem ! nat p, mem ! (nat p + 1), mem ! (nat p + 2), mem ! (nat p + 3)]"
    using l by (auto simp add: list_eq_iff_nth_eq nth_Cons' less_Suc_eq numeral_eq_Suc)
  moreover have "nat (p + 1) = nat p + 1" "nat (p + 2) = nat p + 2" "nat (p + 3) = nat p + 3"
    using p by simp_all
  ultimately show "u = of_char (mem ! nat p) * 2 ^ 24 + of_char (mem ! nat (p + 1)) * 2 ^ 16
          + of_char (mem ! nat (p + 2)) * 2 ^ 8 + of_char (mem ! nat (p + 3))"
    using u by (simp only: be32_4)
qed

text \<open>
  What \<open>tosc_getNextBlob\<close> computes: it reads the four bytes at the cursor as a big-endian
  number \<open>u\<close> and tests \<open>n\<close>, which is \<open>u\<close> converted to \<^verbatim>\<open>int\<close>, a signed 32-bit number.
  For \<open>u < 2 ^ 31\<close> the two are equal; for \<open>u \<ge> 2 ^ 31\<close> the number tested is
  \<open>u - 2 ^ 32\<close>, which is negative.
\<close>

lemma tosc_getNextBlob_result:
  assumes "ntohl_at mem (o_marker osc) = Some u" and "n = to_int32 u"
  shows "u = of_char (mem ! nat (o_marker osc)) * 2 ^ 24 + of_char (mem ! nat (o_marker osc + 1)) * 2 ^ 16
               + of_char (mem ! nat (o_marker osc + 2)) * 2 ^ 8 + of_char (mem ! nat (o_marker osc + 3)) \<and>
         tosc_getNextBlob mem osc =
           (if o_marker osc + 4 + n \<le> o_buffer osc + o_len osc
            then Some ((Some (o_marker osc + 4), n), osc\<lparr>o_marker := o_marker osc + ((n + 7) AND NOT 3)\<rparr>)
            else Some ((None, 0), osc)) \<and>
         4 dvd (n + 7) AND NOT 3 \<and> n + 4 \<le> (n + 7) AND NOT 3 \<and> (n + 7) AND NOT 3 < n + 8"
proof -
  have 1: "tosc_getNextBlob mem osc =
           (if o_marker osc + 4 + n \<le> o_buffer osc + o_len osc
            then Some ((Some (o_marker osc + 4), n), osc\<lparr>o_marker := o_marker osc + ((n + 7) AND NOT 3)\<rparr>)
            else Some ((None, 0), osc))"
    using assms by (simp add: tosc_getNextBlob_def Let_def)
  show ?thesis using 1 ntohl_at_Some(3) [OF assms(1)] pad7_bounds [of n] by blast
qed

lemma tosc_getNextBlob_result_witness:
  "ntohl_at blob_message 8 = Some 5 \<and> (5::int) = to_int32 5 \<and>
   tosc_getNextBlob blob_message (example_osc\<lparr>o_marker := 8, o_len := 20\<rparr>)
     = Some ((Some 12, 5), example_osc\<lparr>o_marker := 20, o_len := 20\<rparr>) \<and>
   tosc_getNextBlob blob_message (example_osc\<lparr>o_marker := 8, o_len := 16\<rparr>)
     = Some ((None, 0), example_osc\<lparr>o_marker := 8, o_len := 16\<rparr>)"
proof -
  have h: "ntohl_at blob_message 8 = Some 5" "(5::int) = to_int32 5"
    by (simp_all add: ntohl_at_def be32_def to_int32_def blob_message_def)
  show ?thesis
    using h tosc_getNextBlob_result [of blob_message "example_osc\<lparr>o_marker := 8, o_len := 20\<rparr>" 5 5]
      tosc_getNextBlob_result [of blob_message "example_osc\<lparr>o_marker := 8, o_len := 16\<rparr>" 5 5]
    by (simp add: example_osc_def)
qed

text \<open>
  Claim C6 fails on the source at a length prefix of \<open>2 ^ 31\<close> or more, for which the
  source has no check. The message is \<^verbatim>\<open>,bb\<close> and a null byte, an empty blob, and the prefix
  \<^verbatim>\<open>FF FF FF F8\<close> of a second blob at the end of its 12 bytes. \<open>tosc_read\<close> succeeds with
  the cursor 4 and the first extraction moves the cursor to 8. There the declared length is
  4294967288 and no byte of the buffer remains after the prefix, so the claim has the second
  extraction return \<^verbatim>\<open>NULL\<close> with the length 0 and leave the cursor at 8. The source tests
  the length as the \<^verbatim>\<open>int\<close> \<open>-8\<close>: the extraction succeeds with the pointer 12, the length
  \<open>-8\<close>, and moves the cursor back to 4.
\<close>

theorem tosc_getNextBlob_length_above_buffer:
  "tosc_read example_osc negative_blob_message 12
     = Some (0, \<lparr>o_format = 1, o_marker = 4, o_buffer = 0, o_len = 12, o_address = 0\<rparr>) \<and>
   tosc_getNextBlob negative_blob_message \<lparr>o_format = 1, o_marker = 4, o_buffer = 0, o_len = 12, o_address = 0\<rparr>
     = Some ((Some 8, 0), \<lparr>o_format = 1, o_marker = 8, o_buffer = 0, o_len = 12, o_address = 0\<rparr>) \<and>
   ntohl_at negative_blob_message 8 = Some 4294967288 \<and>
   tosc_getNextBlob negative_blob_message \<lparr>o_format = 1, o_marker = 8, o_buffer = 0, o_len = 12, o_address = 0\<rparr>
     = Some ((Some 12, - 8), \<lparr>o_format = 1, o_marker = 4, o_buffer = 0, o_len = 12, o_address = 0\<rparr>)"
  by (simp add: negative_blob_message_def example_osc_def tosc_read_def scan.simps load_def
      tosc_getNextBlob_def ntohl_at_def be32_def to_int32_def)

section \<open>Bounds of the extraction operations\<close>

lemma ntohl_at_None_iff: "ntohl_at mem p = None \<longleftrightarrow> \<not> (0 \<le> p \<and> p + 4 \<le> int (length mem))"
  by (simp add: ntohl_at_def)

lemma strlen_None_iff:
  "strlen mem p = None \<longleftrightarrow> \<not> (0 \<le> p \<and> (\<exists>j. p \<le> j \<and> j < int (length mem) \<and> mem ! nat j = CHR 0x00))"
proof -
  have "CHR 0x00 \<in> set (drop (nat p) mem) \<longleftrightarrow> (\<exists>j. p \<le> j \<and> j < int (length mem) \<and> mem ! nat j = CHR 0x00)"
    if p: "0 \<le> p"
  proof
    assume "CHR 0x00 \<in> set (drop (nat p) mem)"
    then obtain k where k: "k < length (drop (nat p) mem)" "drop (nat p) mem ! k = CHR 0x00"
      by (auto simp add: in_set_conv_nth)
    then have lt: "nat p + k < length mem" unfolding length_drop by linarith
    then have "drop (nat p) mem ! k = mem ! (nat p + k)" by (intro nth_drop) linarith
    moreover have "nat (p + int k) = nat p + k" using p by (simp add: nat_add_distrib)
    ultimately have "mem ! nat (p + int k) = CHR 0x00" using k by simp
    moreover have "p \<le> p + int k" "p + int k < int (length mem)" using lt p by linarith+
    ultimately show "\<exists>j. p \<le> j \<and> j < int (length mem) \<and> mem ! nat j = CHR 0x00" by blast
  next
    assume "\<exists>j. p \<le> j \<and> j < int (length mem) \<and> mem ! nat j = CHR 0x00"
    then obtain j where j: "p \<le> j" "j < int (length mem)" "mem ! nat j = CHR 0x00" by blast
    have le: "nat p \<le> nat j" and lt: "nat j < length mem" using j p by linarith+
    then have k: "nat j - nat p < length (drop (nat p) mem)" unfolding length_drop by linarith
    have "drop (nat p) mem ! (nat j - nat p) = mem ! (nat p + (nat j - nat p))"
      using lt le by (intro nth_drop) linarith
    then have "drop (nat p) mem ! (nat j - nat p) = CHR 0x00" using le j by simp
    then show "CHR 0x00 \<in> set (drop (nat p) mem)" using k nth_mem by metis
  qed
  then show ?thesis by (auto simp add: strlen_def)
qed

text \<open>
  Claim C2, as the source has it. Let the object that holds the buffer be exactly the first
  \<open>o_len\<close> bytes, so that an access outside \<open>[0, o_len)\<close> is an access outside the object.
  \<open>tosc_getNextInt32\<close> and \<open>tosc_getNextFloat\<close> read the four bytes at the cursor and have
  no check: they stay inside the buffer exactly when \<open>0 \<le> cursor\<close> and
  \<open>cursor + 4 \<le> o_len\<close>. \<open>tosc_getNextBlob\<close> stays inside the buffer under the same
  condition, and \<open>tosc_getNextString\<close> when \<open>0 \<le> cursor\<close> and a null byte occurs in
  \<open>[cursor, o_len)\<close>. No extraction operation has a store.
\<close>

theorem extraction_inside_buffer:
  assumes "int (length mem) = o_len osc"
  shows "(tosc_getNextInt32 mem osc \<noteq> None \<longleftrightarrow> 0 \<le> o_marker osc \<and> o_marker osc + 4 \<le> o_len osc) \<and>
         (tosc_getNextFloat mem osc \<noteq> None \<longleftrightarrow> 0 \<le> o_marker osc \<and> o_marker osc + 4 \<le> o_len osc) \<and>
         (0 \<le> o_marker osc \<and> o_marker osc + 4 \<le> o_len osc \<longrightarrow> tosc_getNextBlob mem osc \<noteq> None) \<and>
         (0 \<le> o_marker osc \<and> (\<exists>j. o_marker osc \<le> j \<and> j < o_len osc \<and> mem ! nat j = CHR 0x00) \<longrightarrow>
            tosc_getNextString mem osc \<noteq> None)"
proof -
  have i: "tosc_getNextInt32 mem osc \<noteq> None \<longleftrightarrow> ntohl_at mem (o_marker osc) \<noteq> None"
    by (cases "ntohl_at mem (o_marker osc)") (simp_all add: tosc_getNextInt32_def)
  have f: "tosc_getNextFloat mem osc \<noteq> None \<longleftrightarrow> ntohl_at mem (o_marker osc) \<noteq> None"
    by (cases "ntohl_at mem (o_marker osc)") (simp_all add: tosc_getNextFloat_def)
  have b: "tosc_getNextBlob mem osc \<noteq> None \<longleftrightarrow> ntohl_at mem (o_marker osc) \<noteq> None"
    by (cases "ntohl_at mem (o_marker osc)") (simp_all add: tosc_getNextBlob_def Let_def)
  have s: "tosc_getNextString mem osc \<noteq> None \<longleftrightarrow> strlen mem (o_marker osc) \<noteq> None"
    by (cases "strlen mem (o_marker osc)") (simp_all add: tosc_getNextString_def)
  show ?thesis unfolding i f b s ntohl_at_None_iff strlen_None_iff assms by auto
qed

theorem extraction_inside_buffer_witness:
  "int (length blob_message) = o_len (at_8 20) \<and>
   (0::int) \<le> o_marker (at_8 20) \<and> o_marker (at_8 20) + 4 \<le> o_len (at_8 20) \<and>
   o_marker (at_8 20) \<le> 8 \<and> (8::int) < o_len (at_8 20) \<and> blob_message ! nat 8 = CHR 0x00 \<and>
   tosc_getNextInt32 blob_message (at_8 20) \<noteq> None \<and>
   tosc_getNextFloat blob_message (at_8 20) \<noteq> None \<and>
   tosc_getNextBlob blob_message (at_8 20) \<noteq> None \<and>
   tosc_getNextString blob_message (at_8 20) \<noteq> None"
proof -
  have h: "int (length blob_message) = o_len (at_8 20)" by (simp add: blob_message_def at_8_def)
  have c: "(0::int) \<le> o_marker (at_8 20)" "o_marker (at_8 20) + 4 \<le> o_len (at_8 20)"
    "o_marker (at_8 20) \<le> 8" "(8::int) < o_len (at_8 20)" "blob_message ! nat 8 = CHR 0x00"
    by (simp_all add: blob_message_def at_8_def)
  then have "\<exists>j. o_marker (at_8 20) \<le> j \<and> j < o_len (at_8 20) \<and> blob_message ! nat j = CHR 0x00"
    by blast
  with extraction_inside_buffer [OF h] h c show ?thesis by blast
qed

text \<open>
  The claim C2 as the specification states it fails: after a successful \<open>tosc_read\<close> of a
  buffer of six bytes the cursor is 4, two bytes before the end, and \<open>tosc_getNextInt32\<close> and
  \<open>tosc_getNextFloat\<close> read the four bytes at offsets 4 to 7.
\<close>

theorem extraction_reads_past_end:
  "int (length short_message) = 6 \<and>
   tosc_read example_osc short_message 6
     = Some (0, \<lparr>o_format = 1, o_marker = 4, o_buffer = 0, o_len = 6, o_address = 0\<rparr>) \<and>
   tosc_getNextInt32 short_message \<lparr>o_format = 1, o_marker = 4, o_buffer = 0, o_len = 6, o_address = 0\<rparr> = None \<and>
   tosc_getNextFloat short_message \<lparr>o_format = 1, o_marker = 4, o_buffer = 0, o_len = 6, o_address = 0\<rparr> = None"
  by (simp add: short_message_def example_osc_def tosc_read_def scan.simps load_def
      tosc_getNextInt32_def tosc_getNextFloat_def ntohl_at_def)

section \<open>The cursor after an extraction\<close>

text \<open>
  Claim C3, as the source has it. \<open>tosc_getNextInt32\<close> and \<open>tosc_getNextFloat\<close> have no
  failure result and advance the cursor by 4 whenever they return. \<open>tosc_getNextString\<close> and
  \<open>tosc_getNextBlob\<close> leave the struct unchanged when they return \<^verbatim>\<open>NULL\<close>, which they do
  when the terminator of the string is at or beyond the end of the buffer, and when
  \<open>cursor + 4 + n\<close> is beyond the end for the signed blob length \<open>n\<close>. When they return a
  pointer the cursor afterwards is at most 3 beyond the end of the buffer (the padding is not
  checked); the cursor has advanced for a string, and for a blob whose length \<open>n\<close> is not
  negative.
\<close>

theorem cursor_after_extraction:
  "(tosc_getNextInt32 mem osc = Some (k, osc') \<longrightarrow> o_marker osc' = o_marker osc + 4) \<and>
   (tosc_getNextFloat mem osc = Some (u, osc') \<longrightarrow> o_marker osc' = o_marker osc + 4) \<and>
   (tosc_getNextString mem osc = Some (None, osc') \<longrightarrow> osc' = osc) \<and>
   (tosc_getNextString mem osc = Some (Some p, osc') \<longrightarrow>
      o_marker osc < o_marker osc' \<and> o_marker osc' \<le> o_address osc + o_len osc + 3) \<and>
   (strlen mem (o_marker osc) = Some i \<and> o_address osc + o_len osc \<le> o_marker osc + i \<longrightarrow>
      tosc_getNextString mem osc = Some (None, osc)) \<and>
   (tosc_getNextBlob mem osc = Some ((None, n), osc') \<longrightarrow> osc' = osc) \<and>
   (tosc_getNextBlob mem osc = Some ((Some p, n), osc') \<longrightarrow>
      o_marker osc' \<le> o_buffer osc + o_len osc + 3 \<and> (0 \<le> n \<longrightarrow> o_marker osc < o_marker osc')) \<and>
   (ntohl_at mem (o_marker osc) = Some v \<and> o_buffer osc + o_len osc < o_marker osc + 4 + to_int32 v \<longrightarrow>
      tosc_getNextBlob mem osc = Some ((None, 0), osc))"
proof -
  have 1: "tosc_getNextInt32 mem osc = Some (k, osc') \<longrightarrow> o_marker osc' = o_marker osc + 4"
    by (cases "ntohl_at mem (o_marker osc)") (auto simp add: tosc_getNextInt32_def)
  have 2: "tosc_getNextFloat mem osc = Some (u, osc') \<longrightarrow> o_marker osc' = o_marker osc + 4"
    by (cases "ntohl_at mem (o_marker osc)") (auto simp add: tosc_getNextFloat_def)
  have 3: "tosc_getNextString mem osc = Some (None, osc') \<longrightarrow> osc' = osc"
    by (cases "strlen mem (o_marker osc)") (auto simp add: tosc_getNextString_def split: if_splits)
  have 4: "tosc_getNextString mem osc = Some (Some p, osc') \<longrightarrow>
      o_marker osc < o_marker osc' \<and> o_marker osc' \<le> o_address osc + o_len osc + 3"
  proof (cases "strlen mem (o_marker osc)")
    case None
    then show ?thesis by (simp add: tosc_getNextString_def)
  next
    case (Some j)
    define pad where "pad = (j + 4) AND NOT 3"
    have b: "j < pad" "pad \<le> j + 4" unfolding pad_def by (rule pad4_bounds)+
    have "tosc_getNextString mem osc =
        (if o_address osc + o_len osc \<le> o_marker osc + j then Some (None, osc)
         else Some (Some (o_marker osc), osc\<lparr>o_marker := o_marker osc + pad\<rparr>))"
      using Some by (simp add: tosc_getNextString_def pad_def)
    then show ?thesis using b strlen_Some(2) [OF Some] by (auto split: if_splits)
  qed
  have 5: "strlen mem (o_marker osc) = Some i \<and> o_address osc + o_len osc \<le> o_marker osc + i \<longrightarrow>
      tosc_getNextString mem osc = Some (None, osc)"
    by (simp add: tosc_getNextString_def)
  have 6: "tosc_getNextBlob mem osc = Some ((None, n), osc') \<longrightarrow> osc' = osc"
    by (cases "ntohl_at mem (o_marker osc)") (auto simp add: tosc_getNextBlob_def Let_def split: if_splits)
  have 7: "tosc_getNextBlob mem osc = Some ((Some p, n), osc') \<longrightarrow>
      o_marker osc' \<le> o_buffer osc + o_len osc + 3 \<and> (0 \<le> n \<longrightarrow> o_marker osc < o_marker osc')"
  proof (cases "ntohl_at mem (o_marker osc)")
    case None
    then show ?thesis by (simp add: tosc_getNextBlob_def)
  next
    case (Some w)
    define m where "m = to_int32 w"
    define pad where "pad = (m + 7) AND NOT 3"
    have b: "m + 4 \<le> pad" "pad < m + 8" unfolding pad_def by (rule pad7_bounds)+
    have "tosc_getNextBlob mem osc =
        (if o_marker osc + 4 + m \<le> o_buffer osc + o_len osc
         then Some ((Some (o_marker osc + 4), m), osc\<lparr>o_marker := o_marker osc + pad\<rparr>)
         else Some ((None, 0), osc))"
      using Some by (simp add: tosc_getNextBlob_def Let_def pad_def m_def)
    then show ?thesis using b by (auto split: if_splits)
  qed
  have 8: "ntohl_at mem (o_marker osc) = Some v \<and> o_buffer osc + o_len osc < o_marker osc + 4 + to_int32 v \<longrightarrow>
      tosc_getNextBlob mem osc = Some ((None, 0), osc)"
    by (simp add: tosc_getNextBlob_def Let_def)
  show ?thesis using 1 2 3 4 5 6 7 8 by blast
qed

theorem cursor_after_extraction_witness:
  "tosc_getNextInt32 blob_message (at_8 20) = Some (5, (at_8 20)\<lparr>o_marker := 12\<rparr>) \<and>
   tosc_getNextFloat blob_message (at_8 20) = Some (5, (at_8 20)\<lparr>o_marker := 12\<rparr>) \<and>
   o_marker ((at_8 20)\<lparr>o_marker := 12\<rparr>) = o_marker (at_8 20) + 4 \<and>
   tosc_getNextBlob blob_message (at_8 20) = Some ((Some 12, 5), (at_8 20)\<lparr>o_marker := 20\<rparr>) \<and>
   o_marker ((at_8 20)\<lparr>o_marker := 20\<rparr>) \<le> o_buffer (at_8 20) + o_len (at_8 20) + 3 \<and>
   o_marker (at_8 20) < o_marker ((at_8 20)\<lparr>o_marker := 20\<rparr>) \<and>
   ntohl_at blob_message (o_marker (at_8 16)) = Some 5 \<and>
   o_buffer (at_8 16) + o_len (at_8 16) < o_marker (at_8 16) + 4 + to_int32 5 \<and>
   tosc_getNextBlob blob_message (at_8 16) = Some ((None, 0), at_8 16) \<and>
   tosc_getNextString string_message (at_8 12) = Some (Some 8, (at_8 12)\<lparr>o_marker := 12\<rparr>) \<and>
   o_marker (at_8 12) < o_marker ((at_8 12)\<lparr>o_marker := 12\<rparr>) \<and>
   o_marker ((at_8 12)\<lparr>o_marker := 12\<rparr>) \<le> o_address (at_8 12) + o_len (at_8 12) + 3 \<and>
   strlen string_message (o_marker (at_8 10)) = Some 2 \<and>
   o_address (at_8 10) + o_len (at_8 10) \<le> o_marker (at_8 10) + 2 \<and>
   tosc_getNextString string_message (at_8 10) = Some (None, at_8 10)"
proof -
  have i: "tosc_getNextInt32 blob_message (at_8 20) = Some (5, (at_8 20)\<lparr>o_marker := 12\<rparr>)"
    and f: "tosc_getNextFloat blob_message (at_8 20) = Some (5, (at_8 20)\<lparr>o_marker := 12\<rparr>)"
    and b: "tosc_getNextBlob blob_message (at_8 20) = Some ((Some 12, 5), (at_8 20)\<lparr>o_marker := 20\<rparr>)"
    and n: "ntohl_at blob_message (o_marker (at_8 16)) = Some 5"
      "o_buffer (at_8 16) + o_len (at_8 16) < o_marker (at_8 16) + 4 + to_int32 5"
    by (simp_all add: tosc_getNextInt32_def tosc_getNextFloat_def tosc_getNextBlob_def ntohl_at_def
        be32_def to_int32_def blob_message_def at_8_def)
  have s: "tosc_getNextString string_message (at_8 12) = Some (Some 8, (at_8 12)\<lparr>o_marker := 12\<rparr>)"
    and l: "strlen string_message (o_marker (at_8 10)) = Some 2"
      "o_address (at_8 10) + o_len (at_8 10) \<le> o_marker (at_8 10) + 2"
    by (simp_all add: tosc_getNextString_def strlen_def string_message_def at_8_def)
  note t = cursor_after_extraction
  from t [of blob_message "at_8 20" 5 "(at_8 20)\<lparr>o_marker := 12\<rparr>" 5] i f
  have 1: "o_marker ((at_8 20)\<lparr>o_marker := 12\<rparr>) = o_marker (at_8 20) + 4" by blast
  from t [where mem = blob_message and osc = "at_8 20" and osc' = "(at_8 20)\<lparr>o_marker := 20\<rparr>"
      and p = 12 and n = 5] b
  have 2: "o_marker ((at_8 20)\<lparr>o_marker := 20\<rparr>) \<le> o_buffer (at_8 20) + o_len (at_8 20) + 3"
    "o_marker (at_8 20) < o_marker ((at_8 20)\<lparr>o_marker := 20\<rparr>)" by simp_all
  from t [where mem = blob_message and osc = "at_8 16" and v = 5] n
  have 3: "tosc_getNextBlob blob_message (at_8 16) = Some ((None, 0), at_8 16)" by blast
  from t [where mem = string_message and osc = "at_8 12" and osc' = "(at_8 12)\<lparr>o_marker := 12\<rparr>"
      and p = 8] s
  have 4: "o_marker (at_8 12) < o_marker ((at_8 12)\<lparr>o_marker := 12\<rparr>)"
    "o_marker ((at_8 12)\<lparr>o_marker := 12\<rparr>) \<le> o_address (at_8 12) + o_len (at_8 12) + 3" by blast+
  from t [where mem = string_message and osc = "at_8 10" and i = 2] l
  have 5: "tosc_getNextString string_message (at_8 10) = Some (None, at_8 10)" by blast
  show ?thesis using i f b n s l 1 2 3 4 5 by blast
qed

text \<open>
  The claim C3 as the specification states it fails. In a buffer of nine bytes whose last
  byte ends a string of four characters, \<open>tosc_getNextString\<close> returns the string and leaves
  the cursor at 12. With a message of six bytes in an object of eight, \<open>tosc_getNextInt32\<close>
  at cursor 4 would overrun the message: it returns a number and leaves the cursor at 8.
\<close>

theorem cursor_exceeds_length:
  "int (length string_tail_message) = 9 \<and>
   tosc_read example_osc string_tail_message 9
     = Some (0, \<lparr>o_format = 1, o_marker = 4, o_buffer = 0, o_len = 9, o_address = 0\<rparr>) \<and>
   tosc_getNextString string_tail_message \<lparr>o_format = 1, o_marker = 4, o_buffer = 0, o_len = 9, o_address = 0\<rparr>
     = Some (Some 4, \<lparr>o_format = 1, o_marker = 12, o_buffer = 0, o_len = 9, o_address = 0\<rparr>) \<and>
   \<not> (12::int) \<le> 9 \<and>
   tosc_read example_osc long_object 6
     = Some (0, \<lparr>o_format = 1, o_marker = 4, o_buffer = 0, o_len = 6, o_address = 0\<rparr>) \<and>
   tosc_getNextInt32 long_object \<lparr>o_format = 1, o_marker = 4, o_buffer = 0, o_len = 6, o_address = 0\<rparr>
     = Some (42, \<lparr>o_format = 1, o_marker = 8, o_buffer = 0, o_len = 6, o_address = 0\<rparr>) \<and>
   \<not> (8::int) \<le> 6"
  by (simp add: string_tail_message_def long_object_def example_osc_def tosc_read_def scan.simps load_def
      tosc_getNextInt32_def tosc_getNextString_def ntohl_at_def strlen_def be32_def to_int32_def)

section \<open>Writing and reading one float\<close>

lemma replicate_split: "m \<le> n \<Longrightarrow> replicate n x = replicate m x @ replicate (n - m) x"
  by (simp add: replicate_add [symmetric])

lemma write_button1:
  assumes "20 \<le> len" "len \<le> int (length buffer)"
  shows "tosc_write buffer len ''/button1'' ''f'' [Float32 0x3F000000]
    = Some (button1_message @ replicate (nat len - 20) (CHR 0x00) @ drop (nat len) buffer, 20)"
proof -
  have m: "memset_zero buffer len
      = Some (replicate 20 (CHR 0x00) @ replicate (nat len - 20) (CHR 0x00) @ drop (nat len) buffer)"
    using assms replicate_split [of 20 "nat len" "CHR 0x00"] by (simp add: memset_zero_def)
  show ?thesis unfolding tosc_write_def m using assms
    by (simp add: store_bytes_def c_string_def write_arg_def be32_bytes_def button1_message_def
        char_of_def eval_nat_numeral)
qed

lemma read_button1:
  "tosc_read osc (button1_message @ rest) 20
     = Some (0, \<lparr>o_format = 13, o_marker = 16, o_buffer = 0, o_len = 20, o_address = 0\<rparr>)"
  "cstring_at (button1_message @ rest) 0 = ''/button1''"
  "cstring_at (button1_message @ rest) 13 = ''f''"
  "tosc_getNextFloat (button1_message @ rest) \<lparr>o_format = 13, o_marker = 16, o_buffer = 0, o_len = 20, o_address = 0\<rparr>
     = Some (0x3F000000, \<lparr>o_format = 13, o_marker = 20, o_buffer = 0, o_len = 20, o_address = 0\<rparr>)"
  by (simp_all add: tosc_read_def scan.simps load_def cstring_at_def tosc_getNextFloat_def ntohl_at_def
      be32_def button1_message_def)

text \<open>
  Claim C8 (scenario 1). For a capacity \<open>len\<close> of at least 20 bytes, \<open>tosc_write\<close> of the
  address \<open>/button1\<close>, the format \<open>f\<close> and the float with the pattern \<open>0x3F000000\<close> (the
  pattern of 0.5) returns 20 and leaves in the buffer the 16 bytes of the header, the four
  bytes \<open>3F 00 00 00\<close>, and zeros up to \<open>len\<close>. \<open>tosc_read\<close> of that buffer with the length 20
  returns \<open>0\<close>, the address is \<open>/button1\<close>, the format is \<open>f\<close>, and \<open>tosc_getNextFloat\<close>
  returns the pattern \<open>0x3F000000\<close>.
\<close>

theorem scenario_button1:
  assumes "20 \<le> len" and "len \<le> int (length buffer)"
    and "written = button1_message @ replicate (nat len - 20) (CHR 0x00) @ drop (nat len) buffer"
    and "osc' = \<lparr>o_format = 13, o_marker = 16, o_buffer = 0, o_len = 20, o_address = 0\<rparr>"
  shows "tosc_write buffer len ''/button1'' ''f'' [Float32 0x3F000000] = Some (written, 20) \<and>
         take 16 written = ''/button1'' @ [CHR 0x00, CHR 0x00, CHR 0x00, CHR 0x00, CHR '','', CHR ''f'', CHR 0x00, CHR 0x00] \<and>
         take 4 (drop 16 written) = [CHR 0x3F, CHR 0x00, CHR 0x00, CHR 0x00] \<and>
         tosc_read osc written 20 = Some (0, osc') \<and>
         cstring_at written (o_address osc') = ''/button1'' \<and>
         cstring_at written (o_format osc') = ''f'' \<and>
         tosc_getNextFloat written osc' = Some (0x3F000000, osc'\<lparr>o_marker := 20\<rparr>)"
proof -
  have "take 16 written = ''/button1'' @ [CHR 0x00, CHR 0x00, CHR 0x00, CHR 0x00, CHR '','', CHR ''f'', CHR 0x00, CHR 0x00]"
    "take 4 (drop 16 written) = [CHR 0x3F, CHR 0x00, CHR 0x00, CHR 0x00]"
    unfolding assms(3) by (simp_all add: button1_message_def)
  then show ?thesis
    using write_button1 [OF assms(1,2)] read_button1 [where rest = "replicate (nat len - 20) (CHR 0x00) @ drop (nat len) buffer"]
    unfolding assms(3,4) by simp
qed

theorem scenario_button1_witness:
  "(20::int) \<le> 24 \<and> 24 \<le> int (length (replicate 30 (CHR ''x''))) \<and>
   tosc_write (replicate 30 (CHR ''x'')) 24 ''/button1'' ''f'' [Float32 0x3F000000]
     = Some (button1_message @ replicate 4 (CHR 0x00) @ replicate 6 (CHR ''x''), 20) \<and>
   tosc_read example_osc (button1_message @ replicate 4 (CHR 0x00) @ replicate 6 (CHR ''x'')) 20
     = Some (0, \<lparr>o_format = 13, o_marker = 16, o_buffer = 0, o_len = 20, o_address = 0\<rparr>) \<and>
   tosc_getNextFloat (button1_message @ replicate 4 (CHR 0x00) @ replicate 6 (CHR ''x''))
       \<lparr>o_format = 13, o_marker = 16, o_buffer = 0, o_len = 20, o_address = 0\<rparr>
     = Some (0x3F000000, \<lparr>o_format = 13, o_marker = 20, o_buffer = 0, o_len = 20, o_address = 0\<rparr>)"
proof -
  have h: "(20::int) \<le> 24" "24 \<le> int (length (replicate 30 (CHR ''x'')))" by simp_all
  have e: "button1_message @ replicate 4 (CHR 0x00) @ replicate 6 (CHR ''x'')
      = button1_message @ replicate (nat 24 - 20) (CHR 0x00) @ drop (nat 24) (replicate 30 (CHR ''x''))"
    by simp
  from scenario_button1 [OF h e refl, of example_osc] h show ?thesis by simp
qed

section \<open>The header that \<open>tosc_write\<close> writes\<close>

lemma store_bytes_one:
  "0 \<le> p \<Longrightarrow> p < int (length mem) \<Longrightarrow> store_bytes mem p [c] = Some (mem[nat p := c])"
  by (simp add: store_bytes_def upd_conv_take_nth_drop)

lemma strcpy_zeroed:
  assumes "length a < n"
  shows "store_bytes (replicate n (CHR 0x00) @ rest) 0 (a @ [CHR 0x00])
           = Some (a @ replicate (n - length a) (CHR 0x00) @ rest)"
proof -
  have "drop (Suc (length a)) (replicate n (CHR 0x00)) = replicate (n - Suc (length a)) (CHR 0x00)" by simp
  moreover have "CHR 0x00 # replicate (n - Suc (length a)) (CHR 0x00) = replicate (n - length a) (CHR 0x00)"
    using assms by (metis Suc_diff_Suc replicate_Suc)
  ultimately show ?thesis using assms by (simp add: store_bytes_def)
qed

text \<open>The buffer after the address and the comma have been written.\<close>

lemma tosc_write_header:
  assumes "len \<le> int (length buffer)" "int (length (c_string address)) < len"
    "p = (int (length (c_string address)) + 4) AND NOT 3" "p < int (length buffer)"
    "hdr = (c_string address @ replicate (nat len - length (c_string address)) (CHR 0x00) @ drop (nat len) buffer)
              [nat p := CHR '','']"
  shows "tosc_write buffer len address format ap =
     (if len \<le> p + 1 + int (length (c_string format)) then Some (hdr, - 2)
      else do {
        buffer \<leftarrow> store_bytes hdr (p + 1) (c_string format @ [CHR 0x00]);
        write_args (c_string format) ap buffer len ((p + 1 + 4 + int (length (c_string format))) AND NOT 3)
      })"
proof -
  let ?a = "c_string address"
  have len0: "0 \<le> len" using assms(2) by linarith
  have m: "memset_zero buffer len = Some (replicate (nat len) (CHR 0x00) @ drop (nat len) buffer)"
    using assms(1) len0 by (simp add: memset_zero_def)
  have a: "store_bytes (replicate (nat len) (CHR 0x00) @ drop (nat len) buffer) 0 (?a @ [CHR 0x00])
      = Some (?a @ replicate (nat len - length ?a) (CHR 0x00) @ drop (nat len) buffer)"
    using assms(2) by (intro strcpy_zeroed) linarith
  have p0: "0 \<le> p" using pad4_bounds(2) [of "int (length ?a)"] assms(3) by linarith
  have l: "length (?a @ replicate (nat len - length ?a) (CHR 0x00) @ drop (nat len) buffer) = length buffer"
    using assms(1,2) by simp
  have c: "store_bytes (?a @ replicate (nat len - length ?a) (CHR 0x00) @ drop (nat len) buffer) p [CHR '','']
      = Some hdr"
    unfolding assms(5) using p0 assms(4) l by (intro store_bytes_one) simp_all
  have p': "(int (length ?a) + 4) AND - 4 = p" using assms(3) by simp
  show ?thesis
    unfolding tosc_write_def m using assms(2) a c
    by (simp add: Let_def p')
qed

text \<open>
  When the address fits (\<open>strlen(address) < len\<close>) and the comma leaves no room for the
  format and its terminator (\<open>len \<le> p + 1 + strlen(format)\<close>, with \<open>p\<close> the padded length
  of the address), the source stores the comma at offset \<open>p\<close> and then tests the format. If
  \<open>p\<close> is inside the object that holds the buffer, \<open>tosc_write\<close> returns \<open>-2\<close>
  (FormatTooLong); the buffer then holds the address, the comma at offset \<open>p\<close> and zeros
  everywhere else below \<open>len\<close>, and no byte of the format or of an argument is written.
\<close>

lemma tosc_write_format_too_long:
  assumes "len \<le> int (length buffer)"
    and "int (length (c_string address)) < len"
    and "p = (int (length (c_string address)) + 4) AND NOT 3"
    and "p < int (length buffer)"
    and "len \<le> p + 1 + int (length (c_string format))"
  shows "tosc_write buffer len address format ap =
           Some ((c_string address @ replicate (nat len - length (c_string address)) (CHR 0x00)
                    @ drop (nat len) buffer)[nat p := CHR '',''], - 2)"
  using tosc_write_header [OF assms(1,2,3,4) refl] assms(5) by simp

lemma tosc_write_format_too_long_example:
  "tosc_write (replicate 10 (CHR ''x'')) 8 ''/a'' ''iii'' [Int32 1, Int32 2, Int32 3] =
     Some ([CHR ''/'', CHR ''a'', CHR 0x00, CHR 0x00, CHR '','', CHR 0x00, CHR 0x00, CHR 0x00,
            CHR ''x'', CHR ''x''], - 2)"
proof -
  have h: "(8::int) \<le> int (length (replicate 10 (CHR ''x'')))" "int (length (c_string ''/a'')) < 8"
    "(4::int) = (int (length (c_string ''/a'')) + 4) AND NOT 3" "(4::int) < int (length (replicate 10 (CHR ''x'')))"
    "(8::int) \<le> 4 + 1 + int (length (c_string ''iii''))"
    by (simp_all add: c_string_def)
  have e: "(c_string ''/a'' @ replicate (nat 8 - length (c_string ''/a'')) (CHR 0x00)
              @ drop (nat 8) (replicate 10 (CHR ''x'')))[nat 4 := CHR '','']
      = [CHR ''/'', CHR ''a'', CHR 0x00, CHR 0x00, CHR '','', CHR 0x00, CHR 0x00, CHR 0x00, CHR ''x'', CHR ''x'']"
    by (simp add: c_string_def eval_nat_numeral)
  from tosc_write_format_too_long [OF h, of "[Int32 1, Int32 2, Int32 3]"] e show ?thesis by simp
qed

text \<open>
  If \<open>p\<close> is at or beyond the end of the object that holds the buffer, the store of the
  comma is outside it, whatever the format: the test of the address compares
  \<open>strlen(address)\<close> with \<open>len\<close>, not the padded length \<open>p\<close>.
\<close>

lemma tosc_write_comma_outside:
  assumes "len \<le> int (length buffer)" and "int (length (c_string address)) < len"
    and "int (length buffer) \<le> (int (length (c_string address)) + 4) AND NOT 3"
  shows "tosc_write buffer len address format ap = None"
proof -
  let ?a = "c_string address"
  define p where "p = (int (length ?a) + 4) AND NOT 3"
  have len0: "0 \<le> len" using assms(2) by linarith
  have m: "memset_zero buffer len = Some (replicate (nat len) (CHR 0x00) @ drop (nat len) buffer)"
    using assms(1) len0 by (simp add: memset_zero_def)
  have a: "store_bytes (replicate (nat len) (CHR 0x00) @ drop (nat len) buffer) 0 (?a @ [CHR 0x00])
      = Some (?a @ replicate (nat len - length ?a) (CHR 0x00) @ drop (nat len) buffer)"
    using assms(2) by (intro strcpy_zeroed) linarith
  have l: "length (?a @ replicate (nat len - length ?a) (CHR 0x00) @ drop (nat len) buffer) = length buffer"
    using assms(1,2) by simp
  have c: "store_bytes (?a @ replicate (nat len - length ?a) (CHR 0x00) @ drop (nat len) buffer) p [CHR '','']
      = None"
    using assms(3) l unfolding p_def [symmetric] by (simp add: store_bytes_def)
  have p': "(int (length ?a) + 4) AND - 4 = p" by (simp add: p_def)
  show ?thesis
    unfolding tosc_write_def m using assms(2) a c
    by (simp add: Let_def p')
qed

text \<open>
  Claim C9 fails on the source when the address fits the capacity and the comma after its
  padding does not, for which the source has no check. The address \<^verbatim>\<open>/a\<close> has two characters and the padded length 4;
  with the capacity 4 the address passes its test, and the comma leaves no room for the
  format \<^verbatim>\<open>i\<close>, so the claim has \<open>tosc_write\<close> return FormatTooLong with nothing modified
  outside the buffer. The source stores the comma at offset 4 before it tests the format: in
  a buffer of four bytes that store is outside the buffer (\<open>None\<close>); in an object of eight
  bytes, of which the first four are the buffer, it returns \<open>-2\<close> after it has overwritten
  the byte at offset 4, beyond the capacity.
\<close>

theorem tosc_write_comma_out_of_bounds:
  "int (length (c_string ''/a'')) < 4 \<and> (int (length (c_string ''/a'')) + 4) AND NOT 3 = 4 \<and>
   tosc_write (replicate 4 (CHR ''x'')) 4 ''/a'' ''i'' [Int32 1] = None \<and>
   tosc_write (replicate 8 (CHR ''x'')) 4 ''/a'' ''i'' [Int32 1]
     = Some ([CHR ''/'', CHR ''a'', CHR 0x00, CHR 0x00, CHR '','', CHR ''x'', CHR ''x'', CHR ''x''], - 2)"
  by (simp add: tosc_write_def memset_zero_def store_bytes_def c_string_def eval_nat_numeral Let_def)

section \<open>Bytes written and read back\<close>

lemma be32_be32_bytes: "be32 (be32_bytes u) = u mod 2 ^ 32"
proof -
  define v1 v2 v3 where "v1 = u div 256" and "v2 = v1 div 256" and "v3 = v2 div 256"
  have d2: "u div 65536 = v2" unfolding v2_def v1_def using zdiv_zmult2_eq [of 256 u 256] by simp
  have d3: "u div 16777216 = v3" unfolding v3_def d2 [symmetric] using zdiv_zmult2_eq [of 256 u 65536] by simp
  have "be32 (be32_bytes u) = (u div 16777216) mod 256 * 16777216 + (u div 65536) mod 256 * 65536
      + (u div 256) mod 256 * 256 + u mod 256"
    by (simp add: be32_bytes_def be32_4)
  then have 1: "be32 (be32_bytes u) = v3 mod 256 * 16777216 + v2 mod 256 * 65536 + v1 mod 256 * 256 + u mod 256"
    by (simp only: d2 d3 v1_def)
  have 2: "u mod 4294967296 = 256 * (v1 mod 16777216) + u mod 256"
    using zmod_zmult2_eq [of 16777216 u 256] by (simp add: v1_def)
  have 3: "v1 mod 16777216 = 256 * (v2 mod 65536) + v1 mod 256"
    using zmod_zmult2_eq [of 65536 v1 256] by (simp add: v2_def)
  have 4: "v2 mod 65536 = 256 * (v3 mod 256) + v2 mod 256"
    using zmod_zmult2_eq [of 256 v2 256] by (simp add: v3_def)
  have "be32 (be32_bytes u) = u mod 4294967296" unfolding 1 2 3 4 by simp
  then show ?thesis by simp
qed

lemma length_be32_bytes: "length (be32_bytes u) = 4"
  by (simp add: be32_bytes_def)

lemma to_int32_to_uint32:
  assumes "- (2 ^ 31) \<le> k" "k < 2 ^ 31"
  shows "to_int32 (to_uint32 k) = k"
proof (cases "0 \<le> k")
  case True
  then have "k mod 2 ^ 32 = k" using assms by (intro mod_pos_pos_trivial) simp_all
  then show ?thesis using assms by (simp add: to_int32_def to_uint32_def)
next
  case False
  have "(k + 2 ^ 32) mod 2 ^ 32 = k + 2 ^ 32" using assms False by (intro mod_pos_pos_trivial) simp_all
  then have "k mod 2 ^ 32 = k + 2 ^ 32" by simp
  then show ?thesis using False assms by (simp add: to_int32_def to_uint32_def)
qed

lemma uint32_id: "0 \<le> u \<Longrightarrow> u < 2 ^ 32 \<Longrightarrow> u mod 2 ^ 32 = u" for u :: int
  by (rule mod_pos_pos_trivial)

lemma and_uint32_mask:
  assumes "0 \<le> x" "x < 2 ^ 32"
  shows "x AND to_uint32 (NOT 3) = x AND NOT 3" 
proof -
  have m: "to_uint32 (NOT 3) = mask 32 AND NOT 3" by (simp add: to_uint32_def mask_eq_exp_minus_1)
  have "x AND mask 32 = x" using assms by (simp add: take_bit_int_eq_self flip: take_bit_eq_mask)
  then have "(x AND mask 32) AND NOT 3 = x AND NOT 3" by (rule arg_cong)
  then show ?thesis unfolding m by (simp only: and.assoc)
qed

lemma store_bytes_Some:
  assumes "store_bytes B p bs = Some B1"
  shows "0 \<le> p" "p + int (length bs) \<le> int (length B)" "length B1 = length B"
    "take (nat p) B1 = take (nat p) B" "take (length bs) (drop (nat p) B1) = bs"
proof -
  from assms have p: "0 \<le> p" "p + int (length bs) \<le> int (length B)"
    and B1: "B1 = take (nat p) B @ bs @ drop (nat p + length bs) B"
    by (auto simp add: store_bytes_def split: if_splits)
  show "0 \<le> p" "p + int (length bs) \<le> int (length B)" by fact+
  have l: "nat p + length bs \<le> length B" using p by linarith
  then have lt: "length (take (nat p) B) = nat p" by simp
  show "length B1 = length B" unfolding B1 using l by simp
  show "take (nat p) B1 = take (nat p) B" unfolding B1 using lt by simp
  show "take (length bs) (drop (nat p) B1) = bs" unfolding B1 using lt by simp
qed

lemma take_agree_le: "take m xs = take m ys \<Longrightarrow> k \<le> m \<Longrightarrow> take k xs = take k ys"
  by (metis min.absorb1 take_take)

lemma take_drop_agree:
  assumes "take m xs = take m ys" "p + l \<le> m"
  shows "take l (drop p xs) = take l (drop p ys)"
proof -
  have "take l (drop p zs) = drop p (take (p + l) zs)" for zs :: "'a list"
    by (simp add: drop_take)
  moreover have "take (p + l) xs = take (p + l) ys" using assms by (rule take_agree_le)
  ultimately show ?thesis by simp
qed

lemma c_string_no_null: "CHR 0x00 \<notin> set (c_string s)"
  unfolding c_string_def using set_takeWhileD by fastforce

lemma strlen_of_prefix:
  assumes "take (Suc (length s)) (drop (nat p) mem) = s @ [CHR 0x00]" "CHR 0x00 \<notin> set s" "0 \<le> p"
  shows "strlen mem p = Some (int (length s))" "cstring_at mem p = s"
proof -
  have d: "drop (nat p) mem = s @ CHR 0x00 # drop (Suc (length s)) (drop (nat p) mem)"
    using append_take_drop_id [of "Suc (length s)" "drop (nat p) mem"] assms(1) by simp
  have t: "takeWhile (\<lambda>c. c \<noteq> CHR 0x00) (s @ CHR 0x00 # drop (Suc (length s)) (drop (nat p) mem)) = s"
    using assms(2) by (auto simp add: takeWhile_tail)
  have z: "CHR 0x00 \<in> set (drop (nat p) mem)" by (subst d) simp
  show "cstring_at mem p = s" unfolding cstring_at_def by (subst d) (rule t)
  then show "strlen mem p = Some (int (length s))" using z assms(3) by (simp add: strlen_def cstring_at_def)
qed

lemma write_arg_f:
  assumes "write_arg (CHR ''f'') ap B len i = Some (Break ap1 B1 i1)"
  shows "\<exists>f. ap = Float32 f # ap1 \<and> i + 4 \<le> len \<and> store_bytes B i (be32_bytes f) = Some B1 \<and> i1 = i + 4"
  using assms by (auto simp add: write_arg_def split: if_splits list.splits arg.splits bind_splits)

lemma write_arg_i:
  assumes "write_arg (CHR ''i'') ap B len i = Some (Break ap1 B1 i1)"
  shows "\<exists>k. ap = Int32 k # ap1 \<and> i + 4 \<le> len \<and> store_bytes B i (be32_bytes (to_uint32 k)) = Some B1 \<and> i1 = i + 4"
  using assms by (auto simp add: write_arg_def split: if_splits list.splits arg.splits bind_splits)

lemma write_arg_s:
  assumes "write_arg (CHR ''s'') ap B len i = Some (Break ap1 B1 i1)"
  shows "\<exists>s. ap = Str s # ap1 \<and> i + int (length (c_string s)) < len
     \<and> store_bytes B i (c_string s @ [CHR 0x00]) = Some B1
     \<and> i1 = (i + 4 + int (length (c_string s))) AND NOT 3"
  using assms by (auto simp add: write_arg_def Let_def split: if_splits list.splits arg.splits bind_splits)

lemma write_arg_b:
  assumes "write_arg (CHR ''b'') ap B len i = Some (Break ap1 B1 i1)"
  shows "\<exists>k b B0. ap = Blob k b # ap1
     \<and> to_uint32 (to_uint32 (i + 4) + to_uint32 k) \<le> to_uint32 len
     \<and> store_bytes B i (be32_bytes (to_uint32 k)) = Some B0
     \<and> memcpy B0 (i + 4) b (to_uint32 k) = Some B1
     \<and> i1 = to_int32 (to_uint32 (to_uint32 (i + 4 + 3) + to_uint32 k) AND to_uint32 (NOT 3))"
  using assms by (auto simp add: write_arg_def Let_def split: if_splits list.splits arg.splits bind_splits)

lemma write_arg_other:
  assumes "write_arg c ap B len i = Some (Break ap1 B1 i1)" "\<not> value_tag c"
  shows "ap1 = ap \<and> B1 = B \<and> i1 = i \<and> (c = CHR ''T'' \<or> c = CHR ''F'' \<or> c = CHR ''N'' \<or> c = CHR ''I'')"
  using assms by (auto simp add: write_arg_def value_tag_def split: if_splits)

lemma write_arg_Return:
  assumes "write_arg c ap B len i = Some (Return B1 r)"
  shows "r < 0"
  using assms by (auto simp add: write_arg_def Let_def split: if_splits list.splits arg.splits bind_splits)

lemma pad_shift: "4 dvd i \<Longrightarrow> (i + x) AND NOT 3 = i + (x AND NOT 3)" for i x :: int
  unfolding and_not3 by presburger

lemma read_back_word:
  assumes "store_bytes B i (be32_bytes u) = Some B1"
    and "take (nat (i + 4)) B' = take (nat (i + 4)) B1" and "length B' = length B"
  shows "ntohl_at B' i = Some (u mod 2 ^ 32)"
proof -
  note s = store_bytes_Some [OF assms(1)]
  have i: "0 \<le> i" "i + 4 \<le> int (length B')" using s(1,2) assms(3) by (simp_all add: length_be32_bytes)
  have "take 4 (drop (nat i) B') = take 4 (drop (nat i) B1)"
    using assms(2) i(1) by (intro take_drop_agree [where m = "nat (i + 4)"]) simp_all
  also have "\<dots> = be32_bytes u" using s(5) by (simp add: length_be32_bytes)
  finally show ?thesis using i by (simp add: ntohl_at_def be32_be32_bytes)
qed

lemma read_back_float:
  assumes "store_bytes B i (be32_bytes f) = Some B1"
    and "take (nat (i + 4)) B' = take (nat (i + 4)) B1" and "length B' = length B"
    and "o_marker osc = i" and "0 \<le> f" and "f < 2 ^ 32"
  shows "tosc_getNextFloat B' osc = Some (f, osc\<lparr>o_marker := i + 4\<rparr>)"
  using read_back_word [OF assms(1,2,3)] assms(4,5,6) uint32_id [of f]
  by (simp add: tosc_getNextFloat_def)

lemma read_back_int:
  assumes "store_bytes B i (be32_bytes (to_uint32 k)) = Some B1"
    and "take (nat (i + 4)) B' = take (nat (i + 4)) B1" and "length B' = length B"
    and "o_marker osc = i" and "- (2 ^ 31) \<le> k" and "k < 2 ^ 31"
  shows "tosc_getNextInt32 B' osc = Some (k, osc\<lparr>o_marker := i + 4\<rparr>)"
proof -
  have "to_uint32 k mod 2 ^ 32 = to_uint32 k" by (simp add: to_uint32_def)
  then have "ntohl_at B' i = Some (to_uint32 k)" using read_back_word [OF assms(1,2,3)] by simp
  then show ?thesis using assms(4) to_int32_to_uint32 [OF assms(5,6)]
    by (simp add: tosc_getNextInt32_def)
qed

lemma read_back_string:
  assumes "store_bytes B i (c_string s @ [CHR 0x00]) = Some B1"
    and "i1 = (i + 4 + int (length (c_string s))) AND NOT 3" and "4 dvd i"
    and "take (nat i1) B' = take (nat i1) B1"
    and "o_marker osc = i" and "o_address osc = 0" and "i1 \<le> o_len osc"
  shows "tosc_getNextString B' osc = Some (Some i, osc\<lparr>o_marker := i1\<rparr>)" "cstring_at B' i = c_string s"
proof -
  let ?l = "int (length (c_string s))"
  note st = store_bytes_Some [OF assms(1)]
  have i1: "i1 = i + ((?l + 4) AND NOT 3)"
    unfolding assms(2) using pad_shift [OF assms(3), of "?l + 4"] by (simp add: add.commute add.left_commute)
  have gt: "i + ?l < i1" unfolding i1 using pad4_bounds(2) [of ?l] by linarith
  have "take (Suc (length (c_string s))) (drop (nat i) B') = take (Suc (length (c_string s))) (drop (nat i) B1)"
    using assms(4) gt st(1) by (intro take_drop_agree [where m = "nat i1"]) linarith+
  also have "\<dots> = c_string s @ [CHR 0x00]" using st(5) by simp
  finally have p: "take (Suc (length (c_string s))) (drop (nat i) B') = c_string s @ [CHR 0x00]" .
  note sl = strlen_of_prefix [OF p c_string_no_null st(1)]
  show "cstring_at B' i = c_string s" by (rule sl(2))
  show "tosc_getNextString B' osc = Some (Some i, osc\<lparr>o_marker := i1\<rparr>)"
    using sl(1) assms(5,6,7) gt by (simp add: tosc_getNextString_def i1)
qed

lemma blob_check:
  assumes "to_uint32 (to_uint32 (i + 4) + to_uint32 k) \<le> to_uint32 len"
    and "0 \<le> i" and "i \<le> len + 3" and "0 \<le> len" and "len \<le> 2 ^ 31 - 8" and "0 \<le> k" and "k < 2 ^ 31"
  shows "i + 4 + k \<le> len"
proof -
  have b: "i + 4 < 4294967296" "k < 4294967296" "i + 4 + k < 4294967296" "len < 4294967296"
    using assms by simp_all
  have 1: "to_uint32 (i + 4) = i + 4" unfolding to_uint32_def using assms b by (intro mod_pos_pos_trivial) simp_all
  have 2: "to_uint32 k = k" unfolding to_uint32_def using assms b by (intro mod_pos_pos_trivial) simp_all
  have 3: "to_uint32 (i + 4 + k) = i + 4 + k" unfolding to_uint32_def using assms b by (intro mod_pos_pos_trivial) simp_all
  have 4: "to_uint32 len = len" unfolding to_uint32_def using assms b by (intro mod_pos_pos_trivial) simp_all
  show ?thesis using assms(1) unfolding 1 2 3 4 .
qed

lemma blob_offset:
  assumes "0 \<le> i" and "0 \<le> k" and "i + 4 + k \<le> len" and "len \<le> 2 ^ 31 - 8"
  shows "to_int32 (to_uint32 (to_uint32 (i + 4 + 3) + to_uint32 k) AND to_uint32 (NOT 3)) = (i + 7 + k) AND NOT 3"
proof -
  have b: "i + 7 < 4294967296" "k < 4294967296" "i + 7 + k < 2147483648"
    using assms by simp_all
  have e: "i + 4 + 3 = i + 7" by simp
  have 1: "to_uint32 (i + 7) = i + 7" unfolding to_uint32_def using assms b by (intro mod_pos_pos_trivial) simp_all
  have 2: "to_uint32 k = k" unfolding to_uint32_def using assms b by (intro mod_pos_pos_trivial) simp_all
  have 3: "to_uint32 (i + 7 + k) = i + 7 + k" unfolding to_uint32_def using assms b by (intro mod_pos_pos_trivial) simp_all
  have 4: "(i + 7 + k) AND to_uint32 (NOT 3) = (i + 7 + k) AND NOT 3"
    using assms b by (intro and_uint32_mask) simp_all
  define r where "r = (i + 7 + k) AND NOT 3"
  have 5: "0 \<le> r" "r \<le> i + 7 + k"
    unfolding r_def and_not3 using assms(1,2) by presburger+
  then have 6: "r < 2147483648" using b by linarith
  have "r mod 2 ^ 32 = r" using 5 6 by (intro mod_pos_pos_trivial) simp_all
  then have "to_int32 r = r" unfolding to_int32_def using 6 by simp
  then show ?thesis unfolding e 1 2 3 4 r_def .
qed

lemma read_back_blob:
  assumes "store_bytes B i (be32_bytes (to_uint32 k)) = Some B0"
    and "memcpy B0 (i + 4) b (to_uint32 k) = Some B1"
    and "0 \<le> k" and "k < 2 ^ 31"
    and "i1 = (i + 7 + k) AND NOT 3" and "4 dvd i"
    and "take (nat i1) B' = take (nat i1) B1" and "length B' = length B"
    and "o_marker osc = i" and "o_buffer osc = 0" and "i1 \<le> o_len osc"
  shows "tosc_getNextBlob B' osc = Some ((Some (i + 4), k), osc\<lparr>o_marker := i1\<rparr>)"
    "take (nat k) (drop (nat (i + 4)) B') = take (nat k) b"
proof -
  have u: "to_uint32 k = k" unfolding to_uint32_def using assms(3,4) by (intro mod_pos_pos_trivial) simp_all
  note s0 = store_bytes_Some [OF assms(1)]
  from assms(2) have kb: "k \<le> int (length b)" and m: "store_bytes B0 (i + 4) (take (nat k) b) = Some B1"
    unfolding u by (auto simp add: memcpy_def split: if_splits)
  note s1 = store_bytes_Some [OF m]
  have lk: "length (take (nat k) b) = nat k" using kb assms(3) by simp
  have i1: "i1 = i + ((k + 7) AND NOT 3)"
    unfolding assms(5) using pad_shift [OF assms(6), of "k + 7"] by (simp add: add.commute add.left_commute)
  have ge: "i + 4 + k \<le> i1" unfolding i1 using pad7_bounds(2) [of k] by linarith
  have "take 4 (drop (nat i) B') = take 4 (drop (nat i) B1)"
    using assms(7) ge s0(1) assms(3) by (intro take_drop_agree [where m = "nat i1"]) linarith+
  also have "\<dots> = take 4 (drop (nat i) B0)"
    using s1(4) s0(1) by (intro take_drop_agree [where m = "nat (i + 4)"]) linarith+
  also have "\<dots> = be32_bytes (to_uint32 k)" using s0(5) by (simp add: length_be32_bytes)
  finally have w: "take 4 (drop (nat i) B') = be32_bytes k" unfolding u .
  have "i + 4 \<le> int (length B')" using s0(2) assms(8) by (simp add: length_be32_bytes)
  then have n: "ntohl_at B' i = Some k"
    using s0(1) w uint32_id [of k] assms(3,4) by (simp add: ntohl_at_def be32_be32_bytes)
  have t: "to_int32 k = k" using to_int32_to_uint32 [of k] assms(3,4) unfolding u by simp
  show "tosc_getNextBlob B' osc = Some ((Some (i + 4), k), osc\<lparr>o_marker := i1\<rparr>)"
    using n t ge assms(9,10,11) by (simp add: tosc_getNextBlob_def Let_def i1)
  have "take (nat k) (drop (nat (i + 4)) B') = take (nat k) (drop (nat (i + 4)) B1)"
    using assms(7) ge s0(1) assms(3) by (intro take_drop_agree [where m = "nat i1"]) linarith+
  also have "\<dots> = take (nat k) b" using s1(5) lk by simp
  finally show "take (nat k) (drop (nat (i + 4)) B') = take (nat k) b" .
qed

lemma next_args_Cons:
  "next_args (c # fmt) mem osc =
     (case next_args [c] mem osc of
        None \<Rightarrow> None
      | Some (vs1, osc1) \<Rightarrow>
          (case next_args fmt mem osc1 of None \<Rightarrow> None | Some (vs, osc2) \<Rightarrow> Some (vs1 @ vs, osc2)))"
proof -
  consider (b) "c = CHR ''b''" | (f) "c = CHR ''f''" | (i) "c = CHR ''i''" | (s) "c = CHR ''s''"
    | (other) "c \<noteq> CHR ''b''" "c \<noteq> CHR ''f''" "c \<noteq> CHR ''i''" "c \<noteq> CHR ''s''" by blast
  then show ?thesis
  proof cases
    case b
    show ?thesis
    proof (cases "tosc_getNextBlob mem osc")
      case None
      then show ?thesis by (simp add: b)
    next
      case (Some r)
      obtain p n osc1 where r: "r = ((p, n), osc1)" by (metis surj_pair)
      show ?thesis by (cases "next_args fmt mem osc1") (auto simp add: b Some r)
    qed
  next
    case f
    show ?thesis
    proof (cases "tosc_getNextFloat mem osc")
      case None
      then show ?thesis by (simp add: f)
    next
      case (Some r)
      obtain u osc1 where r: "r = (u, osc1)" by (metis surj_pair)
      show ?thesis by (cases "next_args fmt mem osc1") (auto simp add: f Some r)
    qed
  next
    case i
    show ?thesis
    proof (cases "tosc_getNextInt32 mem osc")
      case None
      then show ?thesis by (simp add: i)
    next
      case (Some r)
      obtain u osc1 where r: "r = (u, osc1)" by (metis surj_pair)
      show ?thesis by (cases "next_args fmt mem osc1") (auto simp add: i Some r)
    qed
  next
    case s
    show ?thesis
    proof (cases "tosc_getNextString mem osc")
      case None
      then show ?thesis by (simp add: s)
    next
      case (Some r)
      obtain u osc1 where r: "r = (u, osc1)" by (metis surj_pair)
      show ?thesis by (cases "next_args fmt mem osc1") (auto simp add: s Some r)
    qed
  next
    case other
    show ?thesis by (cases "next_args fmt mem osc") (auto simp add: other)
  qed
qed

lemma dvd_pad: "4 dvd (x::int) AND NOT 3" "x AND NOT 3 \<le> x" "x - 3 \<le> x AND NOT 3"
  unfolding and_not3 by presburger+

lemma write_arg_step:
  assumes w: "write_arg c ap B len i = Some (Break ap1 B1 i1)"
    and i: "0 \<le> i" "4 dvd i" "i \<le> len + 3" and len: "0 \<le> len" "len \<le> 2 ^ 31 - 8" "len \<le> int (length B)"
    and v: "\<forall>a\<in>set ap. valid_arg a"
  shows "i \<le> i1 \<and> 4 dvd i1 \<and> i1 \<le> len + 3 \<and> length B1 = length B \<and> take (nat i) B1 = take (nat i) B \<and>
     (\<exists>vs. ap = vs @ ap1 \<and> length vs = (if value_tag c then 1 else 0) \<and>
        (\<forall>B' osc. take (nat i1) B' = take (nat i1) B1 \<longrightarrow> length B' = length B \<longrightarrow>
            o_marker osc = i \<longrightarrow> o_address osc = 0 \<longrightarrow> o_buffer osc = 0 \<longrightarrow> i1 \<le> o_len osc \<longrightarrow>
            next_args [c] B' osc = Some (map (\<lambda>a. Some (arg_value a)) vs, osc\<lparr>o_marker := i1\<rparr>)))"
proof -
  consider (b) "c = CHR ''b''" | (f) "c = CHR ''f''" | (i) "c = CHR ''i''" | (s) "c = CHR ''s''"
    | (other) "\<not> value_tag c" by (auto simp add: value_tag_def)
  then show ?thesis
  proof cases
    case f
    from write_arg_f [OF w [unfolded f]] obtain x where x: "ap = Float32 x # ap1" "i + 4 \<le> len"
      "store_bytes B i (be32_bytes x) = Some B1" "i1 = i + 4" by blast
    note st = store_bytes_Some [OF x(3)]
    have vx: "0 \<le> x" "x < 2 ^ 32" using v x(1) by (simp_all add: valid_arg_def)
    have r: "next_args [c] B' osc = Some (map (\<lambda>a. Some (arg_value a)) [Float32 x], osc\<lparr>o_marker := i1\<rparr>)"
      if "take (nat i1) B' = take (nat i1) B1" "length B' = length B" "o_marker osc = i" for B' osc
      using read_back_float [OF x(3) that(1) [unfolded x(4)] that(2,3) vx]
      by (simp add: f x(4) arg_value_def)
    have a: "i \<le> i1" "4 dvd i1" "i1 \<le> len + 3" using x(2,4) i(2) by simp_all
    have l: "ap = [Float32 x] @ ap1" "length [Float32 x] = (if value_tag c then 1 else 0)"
      using x(1) by (simp_all add: f value_tag_def)
    show ?thesis
      by (intro conjI exI [of _ "[Float32 x]"] allI impI) (fact a st(3,4) l | rule r, assumption+)+
  next
    case i
    from write_arg_i [OF w [unfolded i]] obtain x where x: "ap = Int32 x # ap1" "i + 4 \<le> len"
      "store_bytes B i (be32_bytes (to_uint32 x)) = Some B1" "i1 = i + 4" by blast
    note st = store_bytes_Some [OF x(3)]
    have vx: "- (2 ^ 31) \<le> x" "x < 2 ^ 31" using v x(1) by (simp_all add: valid_arg_def)
    have r: "next_args [c] B' osc = Some (map (\<lambda>a. Some (arg_value a)) [Int32 x], osc\<lparr>o_marker := i1\<rparr>)"
      if "take (nat i1) B' = take (nat i1) B1" "length B' = length B" "o_marker osc = i" for B' osc
      using read_back_int [OF x(3) that(1) [unfolded x(4)] that(2,3) vx]
      by (simp add: i x(4) arg_value_def)
    have a: "i \<le> i1" "4 dvd i1" "i1 \<le> len + 3" using x(2,4) \<open>4 dvd i\<close> by simp_all
    have l: "ap = [Int32 x] @ ap1" "length [Int32 x] = (if value_tag c then 1 else 0)"
      using x(1) by (simp_all add: i value_tag_def)
    show ?thesis
      by (intro conjI exI [of _ "[Int32 x]"] allI impI) (fact a st(3,4) l | rule r, assumption+)+
  next
    case s
    from write_arg_s [OF w [unfolded s]] obtain x where x: "ap = Str x # ap1"
      "i + int (length (c_string x)) < len" "store_bytes B i (c_string x @ [CHR 0x00]) = Some B1"
      "i1 = (i + 4 + int (length (c_string x))) AND NOT 3" by blast
    note st = store_bytes_Some [OF x(3)]
    have r: "next_args [c] B' osc = Some (map (\<lambda>a. Some (arg_value a)) [Str x], osc\<lparr>o_marker := i1\<rparr>)"
      if "take (nat i1) B' = take (nat i1) B1" "o_marker osc = i" "o_address osc = 0" "i1 \<le> o_len osc" for B' osc
      using read_back_string [OF x(3,4) \<open>4 dvd i\<close> that]
      by (simp add: s arg_value_def)
    have a: "i \<le> i1" "4 dvd i1" "i1 \<le> len + 3"
      unfolding x(4) using dvd_pad [of "i + 4 + int (length (c_string x))"] x(2) by simp_all
    have l: "ap = [Str x] @ ap1" "length [Str x] = (if value_tag c then 1 else 0)"
      using x(1) by (simp_all add: s value_tag_def)
    show ?thesis
      by (intro conjI exI [of _ "[Str x]"] allI impI) (fact a st(3,4) l | rule r, assumption+)+
  next
    case b
    from write_arg_b [OF w [unfolded b]] obtain k d B0 where x: "ap = Blob k d # ap1"
      "to_uint32 (to_uint32 (i + 4) + to_uint32 k) \<le> to_uint32 len"
      "store_bytes B i (be32_bytes (to_uint32 k)) = Some B0"
      "memcpy B0 (i + 4) d (to_uint32 k) = Some B1"
      "i1 = to_int32 (to_uint32 (to_uint32 (i + 4 + 3) + to_uint32 k) AND to_uint32 (NOT 3))" by blast
    have vk: "0 \<le> k" "k < 2 ^ 31" using v x(1) by (simp_all add: valid_arg_def)
    have fit: "i + 4 + k \<le> len" using x(2) i(1,3) len(1,2) vk by (rule blob_check)
    have i1: "i1 = (i + 7 + k) AND NOT 3" unfolding x(5) using i(1) vk(1) fit len(2) by (rule blob_offset)
    have u: "to_uint32 k = k" unfolding to_uint32_def using vk by (intro mod_pos_pos_trivial) simp_all
    note s0 = store_bytes_Some [OF x(3)]
    from x(4) have m: "store_bytes B0 (i + 4) (take (nat k) d) = Some B1"
      unfolding u by (auto simp add: memcpy_def split: if_splits)
    note s1 = store_bytes_Some [OF m]
    have r: "next_args [c] B' osc = Some (map (\<lambda>a. Some (arg_value a)) [Blob k d], osc\<lparr>o_marker := i1\<rparr>)"
      if "take (nat i1) B' = take (nat i1) B1" "length B' = length B" "o_marker osc = i" "o_buffer osc = 0"
        "i1 \<le> o_len osc" for B' osc
      using read_back_blob [OF x(3,4) vk i1 \<open>4 dvd i\<close> that] i(1)
      by (simp add: b arg_value_def nat_add_distrib)
    have a: "i \<le> i1" "4 dvd i1" "i1 \<le> len + 3"
      unfolding i1 using dvd_pad [of "i + 7 + k"] fit vk(1) by simp_all
    have lB: "length B1 = length B" using s0(3) s1(3) by simp
    have "take (nat i) B1 = take (nat i) B0" using s1(4) by (rule take_agree_le) (use i(1) in simp)
    then have tB: "take (nat i) B1 = take (nat i) B" using s0(4) by simp
    have l: "ap = [Blob k d] @ ap1" "length [Blob k d] = (if value_tag c then 1 else 0)"
      using x(1) by (simp_all add: b value_tag_def)
    show ?thesis
      by (intro conjI exI [of _ "[Blob k d]"] allI impI) (fact a lB tB l | rule r, assumption+)+
  next
    case other
    from write_arg_other [OF w other] have x: "ap1 = ap" "B1 = B" "i1 = i" by simp_all
    have r: "next_args [c] B' osc = Some (map (\<lambda>a. Some (arg_value a)) [], osc\<lparr>o_marker := i1\<rparr>)"
      if "o_marker osc = i" for B' osc
      using other that by (simp add: value_tag_def x(3))
    have l: "ap = [] @ ap1" "length ([]::arg list) = (if value_tag c then 1 else 0)"
      using other x(1) by simp_all
    show ?thesis unfolding x(2)
      by (intro conjI exI [of _ "[]"] allI impI) (use i x(3) in simp, use i x(3) in simp, use i x(3) in simp, simp, simp, fact l, fact l, rule r, assumption)
  qed
qed

lemma write_args_read_back:
  assumes "write_args fmt ap B len i = Some (B', n)" and "0 \<le> n"
    and "0 \<le> i" and "4 dvd i" and "i \<le> len + 3"
    and "0 \<le> len" and "len \<le> 2 ^ 31 - 8" and "len \<le> int (length B)"
    and "\<forall>a\<in>set ap. valid_arg a" and "length ap = length (filter value_tag fmt)"
    and "o_marker osc = i" and "o_address osc = 0" and "o_buffer osc = 0" and "o_len osc = n"
  shows "i \<le> n \<and> length B' = length B \<and> take (nat i) B' = take (nat i) B \<and>
         next_args fmt B' osc = Some (map (\<lambda>a. Some (arg_value a)) ap, osc\<lparr>o_marker := n\<rparr>)"
  using assms
proof (induction fmt arbitrary: ap B i osc)
  case Nil
  then show ?case by simp
next
  case (Cons c fmt)
  show ?case
  proof (cases "write_arg c ap B len i")
    case None
    with Cons.prems(1) show ?thesis by simp
  next
    case (Some sr)
    show ?thesis
    proof (cases sr)
      case (Return b r)
      with Some Cons.prems(1) have "n = r" by simp
      moreover have "r < 0" using Some [unfolded Return] by (rule write_arg_Return)
      ultimately show ?thesis using Cons.prems(2) by simp
    next
      case (Break ap1 B1 i1)
      note w = Some [unfolded Break]
      have rec: "write_args fmt ap1 B1 len i1 = Some (B', n)" using Cons.prems(1) w by simp
      from write_arg_step [OF w Cons.prems(3,4,5,6,7,8,9)]
      obtain vs where st: "i \<le> i1" "4 dvd i1" "i1 \<le> len + 3" "length B1 = length B"
        "take (nat i) B1 = take (nat i) B" "ap = vs @ ap1" "length vs = (if value_tag c then 1 else 0)"
        and rb: "\<And>B' osc. take (nat i1) B' = take (nat i1) B1 \<Longrightarrow> length B' = length B \<Longrightarrow>
            o_marker osc = i \<Longrightarrow> o_address osc = 0 \<Longrightarrow> o_buffer osc = 0 \<Longrightarrow> i1 \<le> o_len osc \<Longrightarrow>
            next_args [c] B' osc = Some (map (\<lambda>a. Some (arg_value a)) vs, osc\<lparr>o_marker := i1\<rparr>)"
        by blast
      define osc1 where "osc1 = osc\<lparr>o_marker := i1\<rparr>"
      have o1: "o_marker osc1 = i1" "o_address osc1 = 0" "o_buffer osc1 = 0" "o_len osc1 = n"
        using Cons.prems(12,13,14) by (simp_all add: osc1_def)
      have i1: "0 \<le> i1" using st(1) Cons.prems(3) by linarith
      have lB1: "len \<le> int (length B1)" using st(4) Cons.prems(8) by simp
      have v1: "\<forall>a\<in>set ap1. valid_arg a" using Cons.prems(9) st(6) by simp
      have n1: "length ap1 = length (filter value_tag fmt)" using Cons.prems(10) st(6,7) by (simp split: if_splits)
      from Cons.IH [OF rec Cons.prems(2) i1 st(2,3) Cons.prems(6,7) lB1 v1 n1 o1]
      have ih: "i1 \<le> n" "length B' = length B1" "take (nat i1) B' = take (nat i1) B1"
        "next_args fmt B' osc1 = Some (map (\<lambda>a. Some (arg_value a)) ap1, osc1\<lparr>o_marker := n\<rparr>)"
        by simp_all
      have lB': "length B' = length B" using ih(2) st(4) by simp
      have "next_args [c] B' osc = Some (map (\<lambda>a. Some (arg_value a)) vs, osc1)"
        unfolding osc1_def using ih(3) lB' Cons.prems(11,12,13) ih(1) [folded Cons.prems(14)] by (rule rb)
      then have na: "next_args (c # fmt) B' osc = Some (map (\<lambda>a. Some (arg_value a)) ap, osc\<lparr>o_marker := n\<rparr>)"
        unfolding next_args_Cons [of c fmt] using ih(4) by (simp add: st(6) osc1_def)
      have "take (nat i) B' = take (nat i) B1" using ih(3) by (rule take_agree_le) (use st(1) in simp)
      then have tB: "take (nat i) B' = take (nat i) B" using st(5) by simp
      show ?thesis using st(1) ih(1) lB' tB na by simp
    qed
  qed
qed

lemma first_index_append: "c \<notin> set xs \<Longrightarrow> first_index c (xs @ c # ys) = length xs"
proof -
  assume "c \<notin> set xs"
  then have "takeWhile (\<lambda>b. b \<noteq> c) xs = xs" by (auto simp add: takeWhile_eq_all_conv)
  then show ?thesis by (simp add: first_index_def takeWhile_tail)
qed

lemma tosc_write_header_bytes:
  assumes "store_bytes ((a @ replicate (L - length a) (CHR 0x00) @ D)[P := CHR '','']) (int P + 1) (fmt @ [CHR 0x00])
             = Some B0"
    and "length a < P" and "P < L"
  shows "take (P + length fmt + 2) B0 = a @ replicate (P - length a) (CHR 0x00) @ [CHR '',''] @ fmt @ [CHR 0x00]"
proof -
  let ?Z = "a @ replicate (L - length a) (CHR 0x00) @ D"
  let ?hdr = "?Z[P := CHR '','']"
  note st = store_bytes_Some [OF assms(1)]
  have lZ: "P < length ?Z" using assms(2,3) by simp
  have "take P ?hdr = take P ?Z" by simp
  also have "\<dots> = a @ replicate (P - length a) (CHR 0x00)" using assms(2,3) by simp
  finally have tP: "take P ?hdr = a @ replicate (P - length a) (CHR 0x00)" .
  have "take (Suc P) ?hdr = take P ?hdr @ [?hdr ! P]" using lZ by (simp add: take_Suc_conv_app_nth)
  then have tS: "take (Suc P) ?hdr = a @ replicate (P - length a) (CHR 0x00) @ [CHR '','']"
    using tP lZ by simp
  have n: "nat (int P + 1) = Suc P" by simp
  have 1: "take (Suc P) B0 = take (Suc P) ?hdr" using st(4) unfolding n .
  have 2: "take (Suc (length fmt)) (drop (Suc P) B0) = fmt @ [CHR 0x00]" using st(5) unfolding n by simp
  have "take (Suc P + Suc (length fmt)) B0 = take (Suc P) B0 @ take (Suc (length fmt)) (drop (Suc P) B0)"
    by (rule take_add)
  then show ?thesis unfolding 1 2 tS by (simp add: add.commute)
qed

lemma tosc_write_Some:
  assumes w: "tosc_write buffer len address format ap = Some (written, n)" and n0: "0 \<le> n"
    and p: "p = (int (length (c_string address)) + 4) AND NOT 3"
  shows "0 \<le> len" "len \<le> int (length buffer)" "int (length (c_string address)) < len"
    "p < int (length buffer)"
proof -
  let ?a = "c_string address"
  have m: "memset_zero buffer len \<noteq> None"
  proof
    assume "memset_zero buffer len = None"
    then have "tosc_write buffer len address format ap = None" by (simp add: tosc_write_def)
    with w show False by simp
  qed
  then show len: "0 \<le> len" "len \<le> int (length buffer)" by (auto simp add: memset_zero_def split: if_splits)
  then have mz: "memset_zero buffer len = Some (replicate (nat len) (CHR 0x00) @ drop (nat len) buffer)"
    by (simp add: memset_zero_def)
  show la: "int (length ?a) < len"
  proof (rule ccontr)
    assume "\<not> int (length ?a) < len"
    then have "tosc_write buffer len address format ap
        = Some (replicate (nat len) (CHR 0x00) @ drop (nat len) buffer, - 1)"
      by (simp add: tosc_write_def mz)
    with w n0 show False by simp
  qed
  have a: "store_bytes (replicate (nat len) (CHR 0x00) @ drop (nat len) buffer) 0 (?a @ [CHR 0x00])
      = Some (?a @ replicate (nat len - length ?a) (CHR 0x00) @ drop (nat len) buffer)"
    using la by (intro strcpy_zeroed) linarith
  have l: "length (?a @ replicate (nat len - length ?a) (CHR 0x00) @ drop (nat len) buffer) = length buffer"
    using len la by simp
  have p': "(int (length ?a) + 4) AND - 4 = p" using p by simp
  show "p < int (length buffer)"
  proof (rule ccontr)
    assume "\<not> p < int (length buffer)"
    then have "store_bytes (?a @ replicate (nat len - length ?a) (CHR 0x00) @ drop (nat len) buffer) p [CHR '','']
        = None"
      unfolding store_bytes_def l by simp
    then have "tosc_write buffer len address format ap = None"
      unfolding tosc_write_def mz using la a by (simp add: Let_def p')
    with w show False by simp
  qed
qed

lemma write_read_back:
  assumes w: "tosc_write buffer len address format ap = Some (written, n)" and n0: "0 \<le> n"
    and lim: "len \<le> 2 ^ 31 - 8"
    and comma: "CHR '','' \<notin> set (c_string address)"
    and valid: "\<forall>a\<in>set ap. valid_arg a"
    and count: "length ap = length (filter value_tag (c_string format))"
  shows "\<exists>osc' osc''. tosc_read osc written n = Some (0, osc') \<and>
           cstring_at written (o_address osc') = c_string address \<and>
           cstring_at written (o_format osc') = c_string format \<and>
           next_args (cstring_at written (o_format osc')) written osc'
             = Some (map (\<lambda>a. Some (arg_value a)) ap, osc'')"
proof -
  let ?a = "c_string address" and ?f = "c_string format"
  define p where "p = (int (length ?a) + 4) AND NOT 3"
  define i0 where "i0 = (p + 1 + 4 + int (length ?f)) AND NOT 3"
  define hdr where "hdr = (?a @ replicate (nat len - length ?a) (CHR 0x00) @ drop (nat len) buffer)[nat p := CHR '','']"
  note pre = tosc_write_Some [OF w n0 p_def]
  have pb: "4 dvd p" "int (length ?a) < p" "p \<le> int (length ?a) + 4"
    unfolding p_def by (rule pad4_bounds)+
  have p0: "0 \<le> p" using pb(2) by linarith
  note h = tosc_write_header [OF pre(2,3) p_def pre(4) hdr_def, of format ap]
  have fit: "p + 1 + int (length ?f) < len"
  proof (rule ccontr)
    assume "\<not> p + 1 + int (length ?f) < len"
    then have "tosc_write buffer len address format ap = Some (hdr, - 2)" unfolding h by simp
    with w n0 show False by simp
  qed
  then have h': "tosc_write buffer len address format ap =
      store_bytes hdr (p + 1) (?f @ [CHR 0x00]) \<bind> (\<lambda>buffer. write_args ?f ap buffer len i0)"
    unfolding h i0_def by simp
  obtain B0 where B0: "store_bytes hdr (p + 1) (?f @ [CHR 0x00]) = Some B0"
    and wa: "write_args ?f ap B0 len i0 = Some (written, n)"
    using w unfolding h' by (cases "store_bytes hdr (p + 1) (?f @ [CHR 0x00])") simp_all
  note st = store_bytes_Some [OF B0]
  have lh: "length hdr = length buffer" unfolding hdr_def using pre(1,2,3) by simp
  have ib: "4 dvd i0" "i0 \<le> p + 1 + 4 + int (length ?f)" "p + 1 + 4 + int (length ?f) - 3 \<le> i0"
    unfolding i0_def by (rule dvd_pad)+
  have i00: "0 \<le> i0" "i0 \<le> len + 3" using ib(2,3) p0 fit by linarith+
  have lB0: "len \<le> int (length B0)" using st(3) lh pre(2) by simp
  define osc' where "osc' = osc\<lparr>o_address := 0, o_format := p + 1, o_marker := i0, o_buffer := 0, o_len := n\<rparr>"
  have o': "o_marker osc' = i0" "o_address osc' = 0" "o_buffer osc' = 0" "o_len osc' = n" "o_format osc' = p + 1"
    by (simp_all add: osc'_def)
  from write_args_read_back [OF wa n0 i00(1) ib(1) i00(2) pre(1) lim lB0 valid count o'(1,2,3,4)]
  have rb: "i0 \<le> n" "length written = length B0" "take (nat i0) written = take (nat i0) B0"
    "next_args ?f written osc' = Some (map (\<lambda>a. Some (arg_value a)) ap, osc'\<lparr>o_marker := n\<rparr>)"
    by simp_all
  \<comment> \<open>the bytes of the header\<close>
  define P where "P = nat p"
  define K where "K = P + length ?f + 2"
  define PRE where "PRE = ?a @ replicate (P - length ?a) (CHR 0x00) @ [CHR '',''] @ ?f @ [CHR 0x00]"
  have P: "int P = p" "length ?a < P" "P < nat len" using p0 pb(2) fit by (simp_all add: P_def)
  have B0': "store_bytes ((?a @ replicate (nat len - length ?a) (CHR 0x00) @ drop (nat len) buffer)[P := CHR '',''])
      (int P + 1) (?f @ [CHR 0x00]) = Some B0"
    using B0 unfolding hdr_def P_def [symmetric] P(1) .
  have "take K B0 = PRE" unfolding K_def PRE_def using B0' P(2,3) by (rule tosc_write_header_bytes)
  moreover have "K \<le> nat i0" using ib(3) P(1) by (simp add: K_def)
  ultimately have tK: "take K written = PRE" using take_agree_le [OF rb(3)] by simp
  have Kn: "K \<le> nat n" using \<open>K \<le> nat i0\<close> rb(1) by linarith
  define W where "W = take (nat n) written"
  have "take K W = PRE" unfolding W_def using tK Kn by (simp add: min_def)
  then have W: "W = PRE @ drop K W" using append_take_drop_id [of K W] by simp
  have lPRE: "length PRE = K" using P(2) by (simp add: PRE_def K_def)
  \<comment> \<open>the two offsets that the reader finds\<close>
  define X where "X = ?a @ replicate (P - length ?a) (CHR 0x00)"
  define R where "R = drop K W"
  have lX: "length X = P" using P(2) by (simp add: X_def)
  have Wc: "W = X @ CHR '','' # (?f @ CHR 0x00 # R)" by (subst W) (simp add: PRE_def X_def R_def)
  have Wz: "drop P W = (CHR '','' # ?f) @ CHR 0x00 # R" by (subst Wc) (simp add: lX)
  have c1: "CHR '','' \<notin> set X" using comma by (simp add: X_def)
  have c2: "CHR 0x00 \<notin> set (CHR '','' # ?f)" using c_string_no_null [of format] by simp
  have "first_index (CHR '','') W = P" unfolding Wc lX [symmetric] using c1 by (rule first_index_append)
  then have co: "comma_offset written n = p" using P(1) by (simp add: comma_offset_def W_def)
  have "first_index (CHR 0x00) (drop P W) = length (CHR '','' # ?f)"
    unfolding Wz using c2 by (rule first_index_append)
  then have to: "terminator_offset written n = p + 1 + int (length ?f)"
    unfolding terminator_offset_def co using P(1) by (simp add: P_def W_def)
  have lw: "length written = length buffer" using rb(2) st(3) lh by simp
  have "p + 1 + int (length ?f) < i0" using ib(3) by linarith
  then have tn: "p + 1 + int (length ?f) < n" using rb(1) by linarith
  have rd: "tosc_read osc written n = Some (0, osc')"
    using tosc_read_eq [of n osc written] n0 tn fit pre(2) lw
    by (simp add: co to osc'_def i0_def add.commute add.left_commute)
  \<comment> \<open>the two strings of the header\<close>
  have PREX: "PRE = X @ CHR '','' # ?f @ [CHR 0x00]" by (simp add: PRE_def X_def)
  have "replicate (P - length ?a) (CHR 0x00) = CHR 0x00 # replicate (P - length ?a - 1) (CHR 0x00)"
    using P(2) by (cases "P - length ?a") simp_all
  then have "take (Suc (length ?a)) PRE = ?a @ [CHR 0x00]" by (simp add: PRE_def)
  moreover have "take (Suc (length ?a)) (take K written) = take (Suc (length ?a)) written"
    using P(2) by (simp add: K_def min_def)
  ultimately have "take (Suc (length ?a)) (drop (nat 0) written) = ?a @ [CHR 0x00]" using tK by simp
  then have ca: "cstring_at written 0 = ?a"
    by (rule strlen_of_prefix(2)) (simp_all add: c_string_no_null)
  have "take (Suc (length ?f)) (drop (Suc P) written) = drop (Suc P) (take K written)"
    by (simp add: drop_take K_def)
  also have "\<dots> = ?f @ [CHR 0x00]" unfolding tK PREX by (simp add: lX)
  finally have "take (Suc (length ?f)) (drop (nat (p + 1)) written) = ?f @ [CHR 0x00]"
    using p0 by (simp add: P_def nat_add_distrib)
  then have cf: "cstring_at written (p + 1) = ?f"
    by (rule strlen_of_prefix(2)) (use p0 in \<open>simp_all add: c_string_no_null\<close>)
  show ?thesis using rd ca cf rb(4) o'(2,5) by auto
qed

section \<open>Messages that fit are accepted\<close>

lemma string_size_bounds: "4 dvd string_size s" "int (length s) < string_size s" "string_size s \<le> int (length s) + 4"
  unfolding string_size_def by (rule pad4_bounds)+

lemma arg_size_bounds:
  assumes "valid_arg a"
  shows "0 \<le> arg_size a" "4 dvd arg_size a"
proof -
  show "0 \<le> arg_size a"
  proof (cases a)
    case (Blob k b)
    then show ?thesis using assms pad7_bounds(2) [of k] by (simp add: arg_size_def valid_arg_def del: and_minus4)
  next
    case (Str s)
    then show ?thesis using string_size_bounds(2) [of "c_string s"] by (simp add: arg_size_def)
  qed (simp_all add: arg_size_def)
  show "4 dvd arg_size a"
  proof (cases a)
    case (Blob k b)
    then show ?thesis using pad7_bounds(1) [of k] by (simp add: arg_size_def del: and_minus4)
  next
    case (Str s)
    then show ?thesis using string_size_bounds(1) [of "c_string s"] by (simp add: arg_size_def)
  qed (simp_all add: arg_size_def)
qed

lemma args_size_nonneg: "\<forall>a\<in>set ap. valid_arg a \<Longrightarrow> 0 \<le> sum_list (map arg_size ap)"
  by (induction ap) (simp_all add: arg_size_bounds(1))

lemma write_arg_accepts_float:
  assumes "0 \<le> i" "i + 4 \<le> len" "len \<le> int (length B)"
  shows "\<exists>B1. write_arg (CHR ''f'') (Float32 x # ap) B len i = Some (Break ap B1 (i + 4)) \<and> length B1 = length B"
  using assms by (simp add: write_arg_def store_bytes_def length_be32_bytes)

lemma write_arg_accepts_int:
  assumes "0 \<le> i" "i + 4 \<le> len" "len \<le> int (length B)"
  shows "\<exists>B1. write_arg (CHR ''i'') (Int32 x # ap) B len i = Some (Break ap B1 (i + 4)) \<and> length B1 = length B"
  using assms by (simp add: write_arg_def store_bytes_def length_be32_bytes)

lemma write_arg_accepts_string:
  assumes "0 \<le> i" "4 dvd i" "i + string_size (c_string x) \<le> len" "len \<le> int (length B)"
  shows "\<exists>B1. write_arg (CHR ''s'') (Str x # ap) B len i = Some (Break ap B1 (i + string_size (c_string x)))
     \<and> length B1 = length B"
proof -
  let ?l = "int (length (c_string x))"
  have lt: "i + ?l < len" using string_size_bounds(2) [of "c_string x"] assms(3) by linarith
  have e: "(i + 4 + ?l) AND NOT 3 = i + string_size (c_string x)"
    unfolding string_size_def using pad_shift [OF assms(2), of "?l + 4"] by (simp add: add.commute add.left_commute)
  have "store_bytes B i (c_string x @ [CHR 0x00]) = Some (take (nat i) B @ (c_string x @ [CHR 0x00]) @ drop (nat i + length (c_string x @ [CHR 0x00])) B)"
    using lt assms(1,4) by (simp add: store_bytes_def)
  then obtain B1 where B1: "store_bytes B i (c_string x @ [CHR 0x00]) = Some B1" by blast
  have "length B1 = length B" using store_bytes_Some(3) [OF B1] .
  moreover have "write_arg (CHR ''s'') (Str x # ap) B len i = Some (Break ap B1 ((i + 4 + ?l) AND NOT 3))"
    using lt B1 by (simp add: write_arg_def Let_def del: and_minus4)
  ultimately show ?thesis unfolding e by blast
qed

lemma write_arg_accepts_blob:
  assumes "0 \<le> i" "4 dvd i" "0 \<le> k" "k \<le> int (length b)" "i + ((k + 7) AND NOT 3) \<le> len"
    "len \<le> int (length B)" "len \<le> 2 ^ 31 - 8"
  shows "\<exists>B1. write_arg (CHR ''b'') (Blob k b # ap) B len i = Some (Break ap B1 (i + ((k + 7) AND NOT 3)))
     \<and> length B1 = length B"
proof -
  have fit: "i + 4 + k \<le> len" using pad7_bounds(2) [of k] assms(5) by linarith
  have bnd: "i + 4 < 4294967296" "k < 4294967296" "i + 4 + k < 4294967296" "len < 4294967296" "0 \<le> len"
    using fit assms(1,3,7) by simp_all
  have u: "to_uint32 k = k" "to_uint32 (i + 4) = i + 4" "to_uint32 (i + 4 + k) = i + 4 + k" "to_uint32 len = len"
    unfolding to_uint32_def using assms(1,3) bnd by (simp_all add: mod_pos_pos_trivial)
  have chk: "\<not> to_uint32 (to_uint32 (i + 4) + to_uint32 k) > to_uint32 len"
    unfolding u using fit by simp
  have "store_bytes B i (be32_bytes (to_uint32 k)) \<noteq> None"
    using assms(1,6) fit assms(3) by (simp add: store_bytes_def length_be32_bytes)
  then obtain B0 where B0: "store_bytes B i (be32_bytes (to_uint32 k)) = Some B0" by blast
  have l0: "length B0 = length B" using store_bytes_Some(3) [OF B0] .
  have "memcpy B0 (i + 4) b (to_uint32 k) \<noteq> None"
    unfolding u using assms(1,3,4,6) fit l0 by (simp add: memcpy_def store_bytes_def)
  then obtain B1 where B1: "memcpy B0 (i + 4) b (to_uint32 k) = Some B1" by blast
  have "store_bytes B0 (i + 4) (take (nat k) b) = Some B1"
    using B1 unfolding u using assms(3,4) by (simp add: memcpy_def)
  then have l1: "length B1 = length B" using store_bytes_Some(3) l0 by simp
  have off: "to_int32 (to_uint32 (to_uint32 (i + 4 + 3) + to_uint32 k) AND to_uint32 (NOT 3)) = i + ((k + 7) AND NOT 3)"
    using blob_offset [OF assms(1,3) fit assms(7)] pad_shift [OF assms(2), of "k + 7"]
    by (simp add: add.commute add.left_commute)
  have "write_arg (CHR ''b'') (Blob k b # ap) B len i
      = Some (Break ap B1 (to_int32 (to_uint32 (to_uint32 (i + 4 + 3) + to_uint32 k) AND to_uint32 (NOT 3))))"
    unfolding write_arg_def using chk B0 B1 by (simp add: Let_def)
  then show ?thesis unfolding off using l1 by blast
qed

lemma write_arg_accepts_other:
  assumes "known_tag c" "\<not> value_tag c"
  shows "write_arg c ap B len i = Some (Break ap B i)"
  using assms by (auto simp add: write_arg_def known_tag_def value_tag_def)

lemma write_arg_accepts:
  assumes "arg_tag a = c" "valid_arg a" "0 \<le> i" "4 dvd i" "i + arg_size a \<le> len"
    "len \<le> int (length B)" "len \<le> 2 ^ 31 - 8"
  shows "\<exists>B1. write_arg c (a # ap) B len i = Some (Break ap B1 (i + arg_size a)) \<and> length B1 = length B"
proof (cases a)
  case (Blob k b)
  then have c: "c = CHR ''b''" and v: "0 \<le> k" "k \<le> int (length b)" and s: "arg_size a = (k + 7) AND NOT 3"
    using assms(1,2) by (simp_all add: arg_tag_def valid_arg_def arg_size_def)
  have f: "i + ((k + 7) AND NOT 3) \<le> len" using assms(5) unfolding s .
  from write_arg_accepts_blob [OF assms(3,4) v f assms(6,7), of ap]
  show ?thesis unfolding c s unfolding Blob .
next
  case (Float32 x)
  then have c: "c = CHR ''f''" and s: "arg_size a = 4" using assms(1) by (simp_all add: arg_tag_def arg_size_def)
  from write_arg_accepts_float [OF assms(3) assms(5) [unfolded s] assms(6), of x ap]
  show ?thesis unfolding c s unfolding Float32 .
next
  case (Int32 x)
  then have c: "c = CHR ''i''" and s: "arg_size a = 4" using assms(1) by (simp_all add: arg_tag_def arg_size_def)
  from write_arg_accepts_int [OF assms(3) assms(5) [unfolded s] assms(6), of x ap]
  show ?thesis unfolding c s unfolding Int32 .
next
  case (Str x)
  then have c: "c = CHR ''s''" and s: "arg_size a = string_size (c_string x)"
    using assms(1) by (simp_all add: arg_tag_def arg_size_def)
  from write_arg_accepts_string [OF assms(3,4) assms(5) [unfolded s] assms(6), of ap]
  show ?thesis unfolding c s unfolding Str .
qed

lemma write_args_accepts:
  assumes "list_all known_tag fmt" and "map arg_tag ap = filter value_tag fmt"
    and "\<forall>a\<in>set ap. valid_arg a"
    and "0 \<le> i" and "4 dvd i" and "i + sum_list (map arg_size ap) \<le> len"
    and "len \<le> int (length B)" and "len \<le> 2 ^ 31 - 8"
  shows "\<exists>B'. write_args fmt ap B len i = Some (B', i + sum_list (map arg_size ap))"
  using assms
proof (induction fmt arbitrary: ap B i)
  case Nil
  then show ?case by simp
next
  case (Cons c fmt)
  show ?case
  proof (cases "value_tag c")
    case True
    with Cons.prems(2) obtain a ap' where ap: "ap = a # ap'" and a: "arg_tag a = c"
      and ap': "map arg_tag ap' = filter value_tag fmt" by (cases ap) auto
    have va: "valid_arg a" and vap: "\<forall>a\<in>set ap'. valid_arg a" using Cons.prems(3) ap by simp_all
    note sz = arg_size_bounds [OF va]
    have fit: "i + arg_size a \<le> len" "i + arg_size a + sum_list (map arg_size ap') \<le> len"
      using Cons.prems(6) args_size_nonneg [OF vap] by (simp_all add: ap)
    from write_arg_accepts [OF a va Cons.prems(4,5) fit(1) Cons.prems(7,8), of ap']
    obtain B1 where B1: "write_arg c (a # ap') B len i = Some (Break ap' B1 (i + arg_size a))"
      and l1: "length B1 = length B" by blast
    have "list_all known_tag fmt" using Cons.prems(1) by simp
    moreover have "0 \<le> i + arg_size a" "4 dvd i + arg_size a" using Cons.prems(4,5) sz by simp_all
    moreover have "len \<le> int (length B1)" using l1 Cons.prems(7) by simp
    ultimately obtain B' where "write_args fmt ap' B1 len (i + arg_size a)
        = Some (B', i + arg_size a + sum_list (map arg_size ap'))"
      using Cons.IH [OF _ ap' vap _ _ fit(2) _ Cons.prems(8)] by blast
    then show ?thesis using B1 by (simp add: ap add.assoc)
  next
    case False
    have k: "known_tag c" "list_all known_tag fmt" using Cons.prems(1) by simp_all
    have w: "write_arg c ap B len i = Some (Break ap B i)" using k(1) False by (rule write_arg_accepts_other)
    have "map arg_tag ap = filter value_tag fmt" using Cons.prems(2) False by simp
    from Cons.IH [OF k(2) this Cons.prems(3,4,5,6,7,8)] show ?thesis using w by simp
  qed
qed

lemma tosc_write_accepts:
  assumes tags: "list_all known_tag (c_string format)"
    and types: "map arg_tag ap = filter value_tag (c_string format)"
    and valid: "\<forall>a\<in>set ap. valid_arg a"
    and fits: "message_size address format ap \<le> len"
    and len: "len \<le> int (length buffer)" and lim: "len \<le> 2 ^ 31 - 8"
  shows "\<exists>written. tosc_write buffer len address format ap = Some (written, message_size address format ap)"
proof -
  let ?a = "c_string address" and ?f = "c_string format"
  define p where "p = (int (length ?a) + 4) AND NOT 3"
  define q where "q = string_size (CHR '','' # ?f)"
  define S where "S = sum_list (map arg_size ap)"
  define hdr where "hdr = (?a @ replicate (nat len - length ?a) (CHR 0x00) @ drop (nat len) buffer)[nat p := CHR '','']"
  have pb: "4 dvd p" "int (length ?a) < p" unfolding p_def by (rule pad4_bounds)+
  have qb: "4 dvd q" "int (length ?f) + 1 < q"
    using string_size_bounds(1,2) [of "CHR '','' # ?f"] by (simp_all add: q_def)
  have S0: "0 \<le> S" unfolding S_def using valid by (rule args_size_nonneg)
  have m: "message_size address format ap = p + q + S"
    by (simp add: message_size_def string_size_def p_def q_def S_def)
  have fit: "p + q + S \<le> len" using fits unfolding m .
  have la: "int (length ?a) < len" and pl: "p < int (length buffer)" and room: "p + 1 + int (length ?f) < len"
    using pb(2) qb(2) S0 fit len by linarith+
  have i0: "(p + 1 + 4 + int (length ?f)) AND NOT 3 = p + q"
    unfolding q_def string_size_def using pad_shift [OF pb(1), of "int (length (CHR '','' # ?f)) + 4"]
    by (simp add: add.commute add.left_commute)
  note h = tosc_write_header [OF len la p_def pl hdr_def, of format ap]
  have lh: "length hdr = length buffer" unfolding hdr_def using la len by simp
  have p0: "0 \<le> p" using pb(2) by linarith
  have "store_bytes hdr (p + 1) (?f @ [CHR 0x00]) \<noteq> None"
    using room len lh p0 by (simp add: store_bytes_def)
  then obtain B0 where B0: "store_bytes hdr (p + 1) (?f @ [CHR 0x00]) = Some B0" by blast
  have l0: "len \<le> int (length B0)" using store_bytes_Some(3) [OF B0] lh len by simp
  have "0 \<le> p + q" "4 dvd p + q" using p0 pb(1) qb by simp_all
  from write_args_accepts [OF tags types valid this fit [folded S_def, unfolded S_def] l0 lim]
  obtain B' where "write_args ?f ap B0 len (p + q) = Some (B', p + q + S)" unfolding S_def by blast
  then have "tosc_write buffer len address format ap = Some (B', p + q + S)"
    unfolding h i0 using room B0 by simp
  then show ?thesis unfolding m by blast
qed

section \<open>Writing a message and reading it back\<close>

text \<open>
  Claim C1, as the source has it. A triple is valid when the format has only the characters
  that \<open>tosc_write\<close> knows, the arguments are those that the format takes, in order and each
  in the range of its C type (the length of a blob is a non-negative \<^verbatim>\<open>int\<close> and its
  pointer has that many bytes), and the address has no comma. Its serialized form fits the
  capacity \<open>len\<close> when \<open>message_size address format ap \<le> len\<close>; \<open>len\<close> is at most the size
  of the object that holds the buffer, and at most \<open>2 ^ 31 - 8\<close>, so that no sum of the
  source leaves the range of \<^verbatim>\<open>int\<close>. Then \<open>tosc_write\<close> accepts the message and returns
  its size; \<open>tosc_read\<close> of the written buffer with the returned length returns 0; the
  address and the format of the struct are the original strings; and the extraction
  operations, called in the order of the format, return the values of the arguments. A
  \<^verbatim>\<open>float\<close> is compared by its 32-bit pattern.
\<close>

theorem write_read_roundtrip:
  assumes tags: "list_all known_tag (c_string format)"
    and types: "map arg_tag ap = filter value_tag (c_string format)"
    and valid: "list_all valid_arg ap"
    and comma: "CHR '','' \<notin> set (c_string address)"
    and fits: "message_size address format ap \<le> len"
    and len: "len \<le> int (length buffer)" and lim: "len \<le> 2 ^ 31 - 8"
  shows "\<exists>written osc' osc''.
           tosc_write buffer len address format ap = Some (written, message_size address format ap) \<and>
           tosc_read osc written (message_size address format ap) = Some (0, osc') \<and>
           cstring_at written (o_address osc') = c_string address \<and>
           cstring_at written (o_format osc') = c_string format \<and>
           next_args (cstring_at written (o_format osc')) written osc'
             = Some (map (\<lambda>a. Some (arg_value a)) ap, osc'')"
proof -
  have v: "\<forall>a\<in>set ap. valid_arg a" using valid by (simp add: list_all_iff)
  from tosc_write_accepts [OF tags types v fits len lim]
  obtain written where w: "tosc_write buffer len address format ap
      = Some (written, message_size address format ap)" by blast
  have n0: "0 \<le> message_size address format ap"
    using string_size_bounds(2) [of "c_string address"] string_size_bounds(2) [of "CHR '','' # c_string format"]
      args_size_nonneg [OF v] by (simp add: message_size_def)
  have count: "length ap = length (filter value_tag (c_string format))"
    using arg_cong [OF types, of length] by simp
  from write_read_back [OF w n0 lim comma v count, of osc] w show ?thesis by blast
qed

theorem write_read_roundtrip_witness:
  "list_all known_tag (c_string ''isbT'') \<and>
   map arg_tag example_args = filter value_tag (c_string ''isbT'') \<and>
   list_all valid_arg example_args \<and> CHR '','' \<notin> set (c_string ''/a'') \<and>
   message_size ''/a'' ''isbT'' example_args \<le> 32 \<and>
   (32::int) \<le> int (length (replicate 36 (CHR ''x''))) \<and> (32::int) \<le> 2 ^ 31 - 8 \<and>
   message_size ''/a'' ''isbT'' example_args = 32 \<and>
   tosc_write (replicate 36 (CHR ''x'')) 32 ''/a'' ''isbT'' example_args = Some (example_written, 32) \<and>
   (\<exists>osc' osc''. tosc_read example_osc example_written 32 = Some (0, osc') \<and>
      cstring_at example_written (o_address osc') = ''/a'' \<and>
      cstring_at example_written (o_format osc') = ''isbT'' \<and>
      next_args (cstring_at example_written (o_format osc')) example_written osc'
        = Some ([Some (Int32 (- 2)), Some (Str ''hi''), Some (Blob 5 ''abcde'')], osc''))"
proof -
  have m: "message_size ''/a'' ''isbT'' example_args = 32"
    by (simp add: message_size_def string_size_def arg_size_def c_string_def example_args_def)
  have h: "list_all known_tag (c_string ''isbT'')"
    "map arg_tag example_args = filter value_tag (c_string ''isbT'')"
    "list_all valid_arg example_args" "CHR '','' \<notin> set (c_string ''/a'')"
    "message_size ''/a'' ''isbT'' example_args \<le> 32"
    "(32::int) \<le> int (length (replicate 36 (CHR ''x'')))" "(32::int) \<le> 2 ^ 31 - 8"
    unfolding m by (simp_all add: c_string_def example_args_def valid_arg_def value_tag_def known_tag_def arg_tag_def)
  have w: "tosc_write (replicate 36 (CHR ''x'')) 32 ''/a'' ''isbT'' example_args = Some (example_written, 32)"
    by (simp add: tosc_write_def memset_zero_def store_bytes_def memcpy_def c_string_def write_arg_def
        be32_bytes_def to_uint32_def to_int32_def char_of_def example_args_def example_written_def
        eval_nat_numeral Let_def)
  have e: "c_string ''/a'' = ''/a''" "c_string ''isbT'' = ''isbT''"
    "map (\<lambda>a. Some (arg_value a)) example_args = [Some (Int32 (- 2)), Some (Str ''hi''), Some (Blob 5 ''abcde'')]"
    by (simp_all add: c_string_def example_args_def arg_value_def)
  from write_read_roundtrip [OF h, of example_osc]
  obtain written osc' osc'' where r:
    "tosc_write (replicate 36 (CHR ''x'')) 32 ''/a'' ''isbT'' example_args = Some (written, 32)"
    "tosc_read example_osc written 32 = Some (0, osc')"
    "cstring_at written (o_address osc') = ''/a''"
    "cstring_at written (o_format osc') = ''isbT''"
    "next_args (cstring_at written (o_format osc')) written osc'
        = Some ([Some (Int32 (- 2)), Some (Str ''hi''), Some (Blob 5 ''abcde'')], osc'')"
    unfolding m e by blast
  from r(1) w have "written = example_written" by simp
  with r(2-5) have "\<exists>osc' osc''. tosc_read example_osc example_written 32 = Some (0, osc') \<and>
      cstring_at example_written (o_address osc') = ''/a'' \<and>
      cstring_at example_written (o_format osc') = ''isbT'' \<and>
      next_args (cstring_at example_written (o_format osc')) example_written osc'
        = Some ([Some (Int32 (- 2)), Some (Str ''hi''), Some (Blob 5 ''abcde'')], osc'')" by blast
  with h m w show ?thesis by blast
qed

text \<open>
  The claim C1 as the specification states it fails for an address with a comma, which
  \<open>tosc_write\<close> accepts: \<open>tosc_read\<close> takes the first comma of the buffer for the start of
  the format. The message with the address \<^verbatim>\<open>/a,b\<close>, the format \<^verbatim>\<open>i\<close> and the argument 1
  fits 16 bytes and is written; \<open>tosc_read\<close> succeeds on it, the format of the struct is
  \<^verbatim>\<open>b\<close> and its cursor is 8, where the written format starts, and the extraction in the
  order of that format returns \<^verbatim>\<open>NULL\<close> instead of the integer 1.
\<close>

theorem roundtrip_comma_in_address:
  "message_size ''/a,b'' ''i'' [Int32 1] = 16 \<and>
   tosc_write (replicate 16 (CHR ''x'')) 16 ''/a,b'' ''i'' [Int32 1] = Some (comma_address_written, 16) \<and>
   tosc_read example_osc comma_address_written 16
     = Some (0, \<lparr>o_format = 3, o_marker = 8, o_buffer = 0, o_len = 16, o_address = 0\<rparr>) \<and>
   cstring_at comma_address_written 0 = ''/a,b'' \<and>
   cstring_at comma_address_written 3 = ''b'' \<and>
   next_args ''b'' comma_address_written \<lparr>o_format = 3, o_marker = 8, o_buffer = 0, o_len = 16, o_address = 0\<rparr>
     = Some ([None], \<lparr>o_format = 3, o_marker = 8, o_buffer = 0, o_len = 16, o_address = 0\<rparr>)"
proof -
  have 1: "message_size ''/a,b'' ''i'' [Int32 1] = 16"
    by (simp add: message_size_def string_size_def arg_size_def c_string_def)
  have 2: "tosc_write (replicate 16 (CHR ''x'')) 16 ''/a,b'' ''i'' [Int32 1] = Some (comma_address_written, 16)"
    by (simp add: tosc_write_def memset_zero_def store_bytes_def c_string_def write_arg_def
        be32_bytes_def to_uint32_def char_of_def comma_address_written_def eval_nat_numeral Let_def)
  have 3: "tosc_read example_osc comma_address_written 16
     = Some (0, \<lparr>o_format = 3, o_marker = 8, o_buffer = 0, o_len = 16, o_address = 0\<rparr>)"
    by (simp add: tosc_read_def scan.simps load_def comma_address_written_def example_osc_def)
  have 4: "cstring_at comma_address_written 0 = ''/a,b''" "cstring_at comma_address_written 3 = ''b''"
    by (simp_all add: cstring_at_def strlen_def comma_address_written_def)
  have 5: "next_args ''b'' comma_address_written \<lparr>o_format = 3, o_marker = 8, o_buffer = 0, o_len = 16, o_address = 0\<rparr>
     = Some ([None], \<lparr>o_format = 3, o_marker = 8, o_buffer = 0, o_len = 16, o_address = 0\<rparr>)"
    by (simp add: tosc_getNextBlob_def ntohl_at_def be32_def to_int32_def comma_address_written_def)
  from 1 2 3 4 5 show ?thesis by blast
qed

section \<open>Remarks on lengths that are negative\<close>

text \<open>
  The theorems about \<open>tosc_read\<close> take \<open>len\<close> to be a length. For a negative \<open>len\<close> neither
  loop runs and neither test \<^verbatim>\<open>i == len\<close> holds: the source returns \<open>0\<close> without reading a
  byte.
\<close>

lemma tosc_read_negative_length:
  assumes "len < 0"
  shows "tosc_read osc buffer len
    = Some (0, osc\<lparr>o_address := 0, o_format := 1, o_marker := 4, o_buffer := 0, o_len := len\<rparr>)"
proof -
  have "scan c buffer len 0 = Some 0" for c using assms by (subst scan.simps) simp
  then show ?thesis using assms by (simp add: tosc_read_def)
qed

end
